theory Spec2Isabelle
  imports Complex_Main "HOL-Library.Word" "HOL-Library.List_Lexorder"
begin

section \<open>Bytes, panics and byte-wise comparison\<close>

type_synonym byte = "8 word"

text \<open>
  Go runtime panics that the modelled methods can raise: an index outside a slice and a
  method call through a nil interface value.
\<close>

datatype panic = IndexOutOfRange | NilPointerDereference

text \<open>
  \<^verbatim>\<open>bytes.Compare(a, b)\<close> of the Go standard library: lexicographic comparison of two
  byte strings, bytes read as unsigned numbers; the result is \<open>-1\<close>, \<open>0\<close> or \<open>1\<close>.
\<close>

fun Compare :: "byte list \<Rightarrow> byte list \<Rightarrow> int" where
  "Compare [] [] = 0"
| "Compare [] (y # ys) = - 1"
| "Compare (x # xs) [] = 1"
| "Compare (x # xs) (y # ys) =
     (if x < y then - 1 else if y < x then 1 else Compare xs ys)"

section \<open>OrderedIndex: the ordered collection both stores are built on\<close>

text \<open>
  Modelled from the spec: the B-tree of \<^verbatim>\<open>github.com/google/btree\<close> is a dependency whose
  code is not part of the repository. Section 4.1 of the specification gives its
  interface: \<^verbatim>\<open>ReplaceOrInsert\<close> returns the previous record or none, \<^verbatim>\<open>Get\<close> and
  \<^verbatim>\<open>Delete\<close> find the record that is neither less nor greater than the probe,
  \<^verbatim>\<open>Ascend\<close> visits the records in ascending order and stops when the visitor returns
  false. The tree is represented by the list of its items in ascending order; the
  ordering \<open>lt\<close> is the items' own \<^verbatim>\<open>Less\<close> method.
\<close>

fun btree_Get :: "('a \<Rightarrow> 'a \<Rightarrow> bool) \<Rightarrow> 'a list \<Rightarrow> 'a \<Rightarrow> 'a option" where
  "btree_Get lt [] key = None"
| "btree_Get lt (x # xs) key =
     (if lt x key then btree_Get lt xs key
      else if lt key x then None
      else Some x)"

fun btree_ReplaceOrInsert :: "('a \<Rightarrow> 'a \<Rightarrow> bool) \<Rightarrow> 'a \<Rightarrow> 'a list \<Rightarrow> 'a list \<times> 'a option" where
  "btree_ReplaceOrInsert lt item [] = ([item], None)"
| "btree_ReplaceOrInsert lt item (x # xs) =
     (if lt x item then
        (case btree_ReplaceOrInsert lt item xs of (xs', prev) \<Rightarrow> (x # xs', prev))
      else if lt item x then (item # x # xs, None)
      else (item # xs, Some x))"

fun btree_Delete :: "('a \<Rightarrow> 'a \<Rightarrow> bool) \<Rightarrow> 'a \<Rightarrow> 'a list \<Rightarrow> 'a list \<times> 'a option" where
  "btree_Delete lt key [] = ([], None)"
| "btree_Delete lt key (x # xs) =
     (if lt x key then
        (case btree_Delete lt key xs of (xs', removed) \<Rightarrow> (x # xs', removed))
      else if lt key x then (x # xs, None)
      else (xs, Some x))"

text \<open>
  \<^verbatim>\<open>Ascend(iterator)\<close>: the visitor is a closure over local variables of the caller;
  they are the explicit state \<open>st\<close>. The visitor returns the new state and whether the
  traversal continues, or panics.
\<close>

fun btree_Ascend :: "'a list \<Rightarrow> ('a \<Rightarrow> 's \<Rightarrow> panic + 's \<times> bool) \<Rightarrow> 's \<Rightarrow> panic + 's" where
  "btree_Ascend [] visit st = Inr st"
| "btree_Ascend (x # xs) visit st =
     (case visit x st of
        Inl p \<Rightarrow> Inl p
      | Inr (st', continue) \<Rightarrow> if continue then btree_Ascend xs visit st' else Inr st')"

definition btree_Len :: "'a list \<Rightarrow> int" where
  "btree_Len t = int (length t)"

section \<open>AppendLogStore: \<^verbatim>\<open>BTreeIndexedStorage\<close>\<close>

text \<open>
  \<^verbatim>\<open>type key [8]byte\<close>: the bytes of the array, in order. A value is a Go \<^verbatim>\<open>[]byte\<close>:
  \<open>None\<close> is the nil slice, which is how a tombstoned slot is marked.
\<close>

type_synonym key = "byte list"

type_synonym val = "byte list option"

record entry =
  entry_k :: key
  entry_pos :: nat

definition entry_Less :: "entry \<Rightarrow> entry \<Rightarrow> bool" where
  "entry_Less e than \<longleftrightarrow> Compare (entry_k e) (entry_k than) < 0"

text \<open>
  The fields of the struct, the mutex apart. \<open>threshold\<close> is a \<^verbatim>\<open>float64\<close>; it is read
  only to decide whether \<^verbatim>\<open>Delete\<close> starts a background compaction, and is kept as a
  real number.
\<close>

record BTreeIndexedStorage =
  tree :: "entry list"
  storage :: "val list"
  tombstones :: int
  threshold :: real
  degree :: int
  batchSize :: int

definition NewBTreeIndexedStorage :: "int \<Rightarrow> int \<Rightarrow> real \<Rightarrow> int \<Rightarrow> BTreeIndexedStorage" where
  "NewBTreeIndexedStorage deg capacity thr bs =
     \<lparr>tree = [], storage = [], tombstones = 0, threshold = thr, degree = deg, batchSize = bs\<rparr>"

definition probe :: "key \<Rightarrow> entry" where
  "probe index = \<lparr>entry_k = index, entry_pos = 0\<rparr>"

definition Add :: "key \<Rightarrow> val \<Rightarrow> BTreeIndexedStorage \<Rightarrow> BTreeIndexedStorage" where
  "Add index value s =
     (case btree_Get entry_Less (tree s) (probe index) of
        Some item \<Rightarrow> s
      | None \<Rightarrow>
          (let pos = length (storage s) in
           s\<lparr>storage := storage s @ [value],
             tree := fst (btree_ReplaceOrInsert entry_Less \<lparr>entry_k = index, entry_pos = pos\<rparr> (tree s))\<rparr>))"

definition Get :: "key \<Rightarrow> BTreeIndexedStorage \<Rightarrow> panic + val \<times> bool" where
  "Get index s =
     (case btree_Get entry_Less (tree s) (probe index) of
        None \<Rightarrow> Inr (None, False)
      | Some item \<Rightarrow>
          if entry_pos item < length (storage s) then Inr (storage s ! entry_pos item, True)
          else Inl IndexOutOfRange)"

text \<open>
  \<^verbatim>\<open>Delete\<close> returns the new store and whether it started \<^verbatim>\<open>go s.CompactIncremental()\<close>;
  the compaction itself runs later, as a separate call of \<open>CompactIncremental\<close>.
\<close>

definition Delete :: "key \<Rightarrow> BTreeIndexedStorage \<Rightarrow> panic + BTreeIndexedStorage \<times> bool" where
  "Delete index s =
     (case btree_Delete entry_Less (probe index) (tree s) of
        (t, None) \<Rightarrow> Inr (s\<lparr>tree := t\<rparr>, False)
      | (t, Some item) \<Rightarrow>
          if entry_pos item < length (storage s) then
            (let s' = s\<lparr>tree := t,
                       storage := (storage s)[entry_pos item := None],
                       tombstones := tombstones s + 1\<rparr>
             in Inr (s', real_of_int (tombstones s') / real (length (storage s')) > threshold s'))
          else Inl IndexOutOfRange)"

definition Len :: "BTreeIndexedStorage \<Rightarrow> int" where
  "Len s = btree_Len (tree s)"

text \<open>
  The visitor of \<^verbatim>\<open>CompactIncremental\<close>; its state is the closure's variables
  \<^verbatim>\<open>newStorage\<close>, \<^verbatim>\<open>newTree\<close> and \<^verbatim>\<open>count\<close>.
\<close>

definition compact_visit ::
  "BTreeIndexedStorage \<Rightarrow> entry \<Rightarrow> val list \<times> entry list \<times> int
     \<Rightarrow> panic + (val list \<times> entry list \<times> int) \<times> bool" where
  "compact_visit s e st =
     (case st of (newStorage, newTree, count) \<Rightarrow>
        if entry_pos e < length (storage s) then
          (let val = storage s ! entry_pos e;
               (newStorage', newTree') =
                 (if val \<noteq> None then
                    (let newPos = length newStorage in
                     (newStorage @ [val],
                      fst (btree_ReplaceOrInsert entry_Less \<lparr>entry_k = entry_k e, entry_pos = newPos\<rparr> newTree)))
                  else (newStorage, newTree));
               count' = count + 1
           in if batchSize s > 0 \<and> count' \<ge> batchSize s
              then Inr ((newStorage', newTree', count'), False)
              else Inr ((newStorage', newTree', count'), True))
        else Inl IndexOutOfRange)"

definition CompactIncremental :: "BTreeIndexedStorage \<Rightarrow> panic + BTreeIndexedStorage" where
  "CompactIncremental s =
     (case btree_Ascend (tree s) (compact_visit s) ([], [], 0) of
        Inl p \<Rightarrow> Inl p
      | Inr (newStorage, newTree, count) \<Rightarrow>
          if count < batchSize s \<or> batchSize s = 0 then
            Inr (s\<lparr>storage := newStorage, tree := newTree, tombstones := 0\<rparr>)
          else
            Inr (s\<lparr>storage := newStorage, tree := newTree, tombstones := 0\<rparr>))"

text \<open>
  The result of a compaction as the specification words it: the entries whose slot still
  holds a value, copied in traversal order into a fresh backing sequence, with dense
  positions assigned from \<open>n\<close> on. These two functions are compared with the loop of
  \<open>CompactIncremental\<close> below.
\<close>

definition live_entries :: "BTreeIndexedStorage \<Rightarrow> entry list \<Rightarrow> entry list" where
  "live_entries s es = filter (\<lambda>e. storage s ! entry_pos e \<noteq> None) es"

definition renumbered :: "nat \<Rightarrow> entry list \<Rightarrow> entry list" where
  "renumbered n es = map (\<lambda>(i, e). \<lparr>entry_k = entry_k e, entry_pos = i\<rparr>) (enumerate n es)"

definition scanned :: "BTreeIndexedStorage \<Rightarrow> entry list" where
  "scanned s = (if batchSize s > 0 then take (nat (batchSize s)) (tree s) else tree s)"

definition rebuilt :: "BTreeIndexedStorage \<Rightarrow> BTreeIndexedStorage" where
  "rebuilt s =
     s\<lparr>storage := map (\<lambda>e. storage s ! entry_pos e) (live_entries s (scanned s)),
       tree := renumbered 0 (live_entries s (scanned s)),
       tombstones := 0\<rparr>"

text \<open>
  The invariant of the store: the index is strictly ascending by key and every position
  points into the backing sequence.
\<close>

definition store_inv :: "BTreeIndexedStorage \<Rightarrow> bool" where
  "store_inv s \<longleftrightarrow>
     sorted_wrt entry_Less (tree s) \<and> list_all (\<lambda>e. entry_pos e < length (storage s)) (tree s)"

section \<open>TTLIndex: \<^verbatim>\<open>ByteKeyBTree\<close> over \<^verbatim>\<open>Item\<close> records\<close>

text \<open>
  Records are Go objects reached through pointers, and their keys are byte slices that
  refer to arrays. Both are kept in an explicit store: \<open>objs\<close> maps the address of a
  record object to its fields, \<open>arrs\<close> maps the address of an array to its bytes, and
  \<open>brk\<close> is the first array address not yet allocated. A slice is nil (\<open>None\<close>) or the
  array it spans. An \<^verbatim>\<open>Item\<close> interface value is nil (\<open>None\<close>) or a pointer to a record
  object. \<^verbatim>\<open>time.Time\<close> and \<^verbatim>\<open>time.Duration\<close> are counted in nanoseconds.
\<close>

type_synonym addr = nat

type_synonym slice = "addr option"

type_synonym Item = "addr option"

type_synonym Time = int

type_synonym Duration = int

datatype node =
    ValueNodeItem (valueBytes: slice) (keyBytes: slice) (timestampUnixSeconds: int)
  | FilterNodeItem (keyBytes: slice) (timestampUnixSeconds: int)

text \<open>
  \<open>index_tree\<close> is the field \<^verbatim>\<open>tree\<close> of \<^verbatim>\<open>ByteKeyBTree\<close>, the items in ascending order;
  the methods \<^verbatim>\<open>Delete\<close> of the two stores are \<open>Delete\<close> and \<open>ttl_Delete\<close>. A new index
  is a store whose \<open>index_tree\<close> is empty: the options of \<^verbatim>\<open>NewByteKeyBTree\<close> (degree,
  free list, clock) change no result.
\<close>

record world =
  index_tree :: "addr list"
  objs :: "addr \<Rightarrow> node"
  arrs :: "addr \<Rightarrow> byte list"
  brk :: addr

definition Unix :: "Time \<Rightarrow> int" where
  "Unix t = t div 1000000000"

definition time_Add :: "Time \<Rightarrow> Duration \<Rightarrow> Time" where
  "time_Add t d = t + d"

definition len :: "world \<Rightarrow> slice \<Rightarrow> nat" where
  "len w sl = (case sl of None \<Rightarrow> 0 | Some p \<Rightarrow> length (arrs w p))"

definition bytes_of :: "world \<Rightarrow> slice \<Rightarrow> byte list" where
  "bytes_of w sl = (case sl of None \<Rightarrow> [] | Some p \<Rightarrow> arrs w p)"

definition Key :: "world \<Rightarrow> addr \<Rightarrow> slice" where
  "Key w a = keyBytes (objs w a)"

definition Value :: "world \<Rightarrow> addr \<Rightarrow> slice" where
  "Value w a = (case objs w a of ValueNodeItem v k t \<Rightarrow> v | FilterNodeItem k t \<Rightarrow> None)"

definition GetExpirationTime :: "world \<Rightarrow> addr \<Rightarrow> int" where
  "GetExpirationTime w a = timestampUnixSeconds (objs w a)"

definition SetExpirationTime :: "addr \<Rightarrow> Time \<Rightarrow> world \<Rightarrow> world" where
  "SetExpirationTime a expiration w =
     w\<lparr>objs := (objs w)(a :=
        (case objs w a of
           ValueNodeItem v k t \<Rightarrow> ValueNodeItem v k (Unix expiration)
         | FilterNodeItem k t \<Rightarrow> FilterNodeItem k (Unix expiration)))\<rparr>"

definition Less :: "world \<Rightarrow> addr \<Rightarrow> addr \<Rightarrow> bool" where
  "Less w a b \<longleftrightarrow> Compare (bytes_of w (Key w a)) (bytes_of w (Key w b)) < 0"

definition cloneBytes :: "slice \<Rightarrow> world \<Rightarrow> slice \<times> world" where
  "cloneBytes src w =
     (if len w src = 0 then (None, w)
      else (let dst = brk w
            in (Some dst, w\<lparr>arrs := (arrs w)(dst := bytes_of w src), brk := Suc dst\<rparr>)))"

definition UpsertAt :: "Item \<Rightarrow> Time \<Rightarrow> world \<Rightarrow> world \<times> bool" where
  "UpsertAt item ts w =
     (case item of
        None \<Rightarrow> (w, False)
      | Some a \<Rightarrow>
          if len w (Key w a) = 0 then (w, False)
          else (let w1 = SetExpirationTime a ts w;
                    (t, prev) = btree_ReplaceOrInsert (Less w1) a (index_tree w1)
                in (w1\<lparr>index_tree := t\<rparr>, prev = None)))"

fun UpsertManyAt_loop :: "Item list \<Rightarrow> Time \<Rightarrow> world \<Rightarrow> int \<Rightarrow> panic + world \<times> int" where
  "UpsertManyAt_loop [] at_time w added = Inr (w, added)"
| "UpsertManyAt_loop (item # rest) at_time w added =
     (case item of
        None \<Rightarrow> Inl NilPointerDereference
      | Some a \<Rightarrow>
          if len w (Key w a) = 0 then UpsertManyAt_loop rest at_time w added
          else (let w1 = SetExpirationTime a at_time w;
                    (t, prev) = btree_ReplaceOrInsert (Less w1) a (index_tree w1)
                in UpsertManyAt_loop rest at_time (w1\<lparr>index_tree := t\<rparr>)
                     (if prev = None then added + 1 else added)))"

definition UpsertManyAt :: "Item list \<Rightarrow> Time \<Rightarrow> world \<Rightarrow> panic + world \<times> int" where
  "UpsertManyAt items at_time w =
     (if length items = 0 then Inr (w, 0) else UpsertManyAt_loop items at_time w 0)"

definition ttl_Delete :: "Item \<Rightarrow> world \<Rightarrow> world \<times> bool" where
  "ttl_Delete item w =
     (case item of
        None \<Rightarrow> (w, False)
      | Some a \<Rightarrow>
          if len w (Key w a) = 0 then (w, False)
          else (case btree_Delete (Less w) a (index_tree w) of
                  (t, removed) \<Rightarrow> (w\<lparr>index_tree := t\<rparr>, removed \<noteq> None)))"

fun DeleteMany_loop :: "Item list \<Rightarrow> world \<Rightarrow> int \<Rightarrow> panic + world \<times> int" where
  "DeleteMany_loop [] w deleted = Inr (w, deleted)"
| "DeleteMany_loop (item # rest) w deleted =
     (case item of
        None \<Rightarrow> Inl NilPointerDereference
      | Some a \<Rightarrow>
          if len w (Key w a) = 0 then DeleteMany_loop rest w deleted
          else (case btree_Delete (Less w) a (index_tree w) of
                  (t, removed) \<Rightarrow>
                    DeleteMany_loop rest (w\<lparr>index_tree := t\<rparr>)
                      (if removed \<noteq> None then deleted + 1 else deleted)))"

definition DeleteMany :: "Item list \<Rightarrow> world \<Rightarrow> panic + world \<times> int" where
  "DeleteMany items w =
     (if length items = 0 then Inr (w, 0) else DeleteMany_loop items w 0)"

definition Has :: "Item \<Rightarrow> world \<Rightarrow> bool" where
  "Has item w =
     (case item of
        None \<Rightarrow> False
      | Some a \<Rightarrow>
          if len w (Key w a) = 0 then False
          else btree_Get (Less w) (index_tree w) a \<noteq> None)"

definition GetNodeItem :: "Item \<Rightarrow> world \<Rightarrow> Item \<times> bool" where
  "GetNodeItem item w =
     (case item of
        None \<Rightarrow> (None, False)
      | Some a \<Rightarrow>
          if len w (Key w a) = 0 then (None, False)
          else (case btree_Get (Less w) (index_tree w) a of
                  None \<Rightarrow> (None, False)
                | Some res \<Rightarrow> (Some res, True)))"

definition GetLastWriteUnix :: "Item \<Rightarrow> world \<Rightarrow> int \<times> bool" where
  "GetLastWriteUnix item w =
     (case item of
        None \<Rightarrow> (0, False)
      | Some a \<Rightarrow>
          (case btree_Get (Less w) (index_tree w) a of
             None \<Rightarrow> (0, False)
           | Some res \<Rightarrow> (GetExpirationTime w res, True)))"

definition Size :: "world \<Rightarrow> int" where
  "Size w = btree_Len (index_tree w)"

definition Reset :: "world \<Rightarrow> world" where
  "Reset w = w\<lparr>index_tree := []\<rparr>"

text \<open>
  \<^verbatim>\<open>ForEach\<close>. The callback is Go code of the caller: it is given the closure's own
  state \<open>c\<close>, the bytes of the slice it receives and the timestamp, and answers with its
  new state, the stores \<^verbatim>\<open>key[i] = b\<close> it performs on that slice, in order, and whether
  the traversal continues. A store outside the slice panics, as in Go.
\<close>

type_synonym 'c callback = "'c \<Rightarrow> byte list \<Rightarrow> int \<Rightarrow> 'c \<times> (nat \<times> byte) list \<times> bool"

fun store_bytes :: "(nat \<times> byte) list \<Rightarrow> slice \<Rightarrow> world \<Rightarrow> panic + world" where
  "store_bytes [] sl w = Inr w"
| "store_bytes ((i, b) # writes) sl w =
     (case sl of
        None \<Rightarrow> Inl IndexOutOfRange
      | Some p \<Rightarrow>
          if i < length (arrs w p)
          then store_bytes writes sl (w\<lparr>arrs := (arrs w)(p := (arrs w p)[i := b])\<rparr>)
          else Inl IndexOutOfRange)"

definition foreach_visit :: "'c callback \<Rightarrow> addr \<Rightarrow> world \<times> 'c \<Rightarrow> panic + (world \<times> 'c) \<times> bool" where
  "foreach_visit callback x st =
     (case st of (w, c) \<Rightarrow>
        (case cloneBytes (Key w x) w of (keyCopy, w1) \<Rightarrow>
           (case callback c (bytes_of w1 keyCopy) (GetExpirationTime w1 x) of
              (c', writes, keepGoing) \<Rightarrow>
                (case store_bytes writes keyCopy w1 of
                   Inl p \<Rightarrow> Inl p
                 | Inr w2 \<Rightarrow> Inr ((w2, c'), keepGoing)))))"

definition ForEach ::
  "'c callback option \<Rightarrow> 'c \<Rightarrow> world \<Rightarrow> panic + (world \<times> 'c) \<times> string option" where
  "ForEach callback c w =
     (case callback of
        None \<Rightarrow> Inr ((w, c), Some ''nil callback'')
      | Some cb \<Rightarrow>
          (case btree_Ascend (index_tree w) (foreach_visit cb) (w, c) of
             Inl p \<Rightarrow> Inl p
           | Inr st \<Rightarrow> Inr (st, None)))"

text \<open>The callback that answers as \<open>cb\<close> does but stores nothing.\<close>

definition without_stores :: "'c callback \<Rightarrow> 'c callback" where
  "without_stores cb c key ts = (case cb c key ts of (c', writes, keepGoing) \<Rightarrow> (c', [], keepGoing))"

text \<open>\<^verbatim>\<open>PurgeExpiredAt\<close>: the scan that collects the candidates, then the deletions.\<close>

definition purge_visit :: "world \<Rightarrow> int \<Rightarrow> int \<Rightarrow> addr \<Rightarrow> addr list \<Rightarrow> panic + addr list \<times> bool" where
  "purge_visit w cutoffUnix maxToDelete it itemsToDelete =
     (if GetExpirationTime w it \<le> cutoffUnix then
        (let itemsToDelete' = itemsToDelete @ [it]
         in if maxToDelete > 0 \<and> int (length itemsToDelete') \<ge> maxToDelete
            then Inr (itemsToDelete', False)
            else Inr (itemsToDelete', True))
      else Inr (itemsToDelete, True))"

fun purge_delete_loop :: "addr list \<Rightarrow> world \<Rightarrow> int \<Rightarrow> world \<times> int" where
  "purge_delete_loop [] w deleted = (w, deleted)"
| "purge_delete_loop (item # rest) w deleted =
     (case btree_Delete (Less w) item (index_tree w) of
        (t, removed) \<Rightarrow>
          purge_delete_loop rest (w\<lparr>index_tree := t\<rparr>)
            (if removed \<noteq> None then deleted + 1 else deleted))"

definition PurgeExpiredAt :: "Time \<Rightarrow> Duration \<Rightarrow> int \<Rightarrow> world \<Rightarrow> panic + world \<times> int" where
  "PurgeExpiredAt now ttl maxToDelete w =
     (if ttl \<le> 0 then Inr (w, 0)
      else (let cutoffUnix = Unix (time_Add now (- ttl))
            in (case btree_Ascend (index_tree w) (purge_visit w cutoffUnix maxToDelete) [] of
                  Inl p \<Rightarrow> Inl p
                | Inr itemsToDelete \<Rightarrow>
                    if length itemsToDelete = 0 then Inr (w, 0)
                    else Inr (purge_delete_loop itemsToDelete w 0))))"

text \<open>\<^verbatim>\<open>ListExpiredAt\<close> writes nothing; its result is nil (\<open>None\<close>) or the list of records.\<close>

definition list_visit :: "world \<Rightarrow> int \<Rightarrow> bool \<Rightarrow> int \<Rightarrow> addr \<Rightarrow> addr list \<Rightarrow> panic + addr list \<times> bool" where
  "list_visit w cutoff limit maxCount it out =
     (if GetExpirationTime w it \<le> cutoff then
        (let out' = out @ [it]
         in if limit \<and> int (length out') \<ge> maxCount
            then Inr (out', False)
            else Inr (out', True))
      else Inr (out, True))"

definition ListExpiredAt :: "Time \<Rightarrow> Duration \<Rightarrow> int \<Rightarrow> world \<Rightarrow> panic + addr list option" where
  "ListExpiredAt now ttl maxCount w =
     (if ttl \<le> 0 then Inr None
      else (let cutoff = Unix (time_Add now (- ttl));
                limit = (maxCount > 0)
            in (case btree_Ascend (index_tree w) (list_visit w cutoff limit maxCount) [] of
                  Inl p \<Rightarrow> Inl p
                | Inr out \<Rightarrow> Inr (Some out))))"

text \<open>
  The eligibility rule as the specification words it: a record is expired when its
  expiration is at or before the cutoff \<open>now - ttl\<close>, in whole seconds.
\<close>

definition eligible :: "world \<Rightarrow> Time \<Rightarrow> Duration \<Rightarrow> addr \<Rightarrow> bool" where
  "eligible w now ttl a \<longleftrightarrow> GetExpirationTime w a \<le> Unix (time_Add now (- ttl))"

text \<open>
  The invariant of the index: strictly ascending by key. A record is allocated when its
  key slice refers to an array below \<open>brk\<close>.
\<close>

definition index_inv :: "world \<Rightarrow> bool" where
  "index_inv w \<longleftrightarrow> sorted_wrt (Less w) (index_tree w)"

definition allocated :: "world \<Rightarrow> addr \<Rightarrow> bool" where
  "allocated w a \<longleftrightarrow> (case Key w a of None \<Rightarrow> True | Some p \<Rightarrow> p < brk w)"

text \<open>The bytes of a record's key.\<close>

definition key_bytes :: "world \<Rightarrow> addr \<Rightarrow> byte list" where
  "key_bytes w a = bytes_of w (Key w a)"

text \<open>
  The records the specification calls expired, in ascending key order, cut at the limit
  when the limit is positive.
\<close>

definition candidates :: "world \<Rightarrow> Time \<Rightarrow> Duration \<Rightarrow> int \<Rightarrow> addr list" where
  "candidates w now ttl limit =
     (let expired = filter (eligible w now ttl) (index_tree w)
      in if limit > 0 then take (nat limit) expired else expired)"

text \<open>
  Two states of the store with the same index: the same tree, the same record objects,
  and the same bytes in every array that was allocated in the first.
\<close>

definition same_index :: "world \<Rightarrow> world \<Rightarrow> bool" where
  "same_index w w' \<longleftrightarrow>
     index_tree w' = index_tree w \<and> objs w' = objs w \<and> brk w \<le> brk w'
     \<and> (\<forall>p<brk w. arrs w' p = arrs w p)"

text \<open>
  What a traversal does to the closure, as a function of the keys and timestamps it
  passes: the callback is called on each pair in turn, a store outside the key it was
  given panics, and the traversal ends when the callback answers false.
  \<open>visited\<close> is the list of pairs of an index, in ascending key order.
\<close>

fun feed :: "'c callback \<Rightarrow> (byte list \<times> int) list \<Rightarrow> 'c \<Rightarrow> panic + 'c" where
  "feed cb [] c = Inr c"
| "feed cb ((key, ts) # rest) c =
     (case cb c key ts of
        (c', writes, keepGoing) \<Rightarrow>
          if list_all (\<lambda>(i, b). i < length key) writes
          then (if keepGoing then feed cb rest c' else Inr c')
          else Inl IndexOutOfRange)"

definition visited :: "world \<Rightarrow> (byte list \<times> int) list" where
  "visited w = map (\<lambda>a. (key_bytes w a, GetExpirationTime w a)) (index_tree w)"

section \<open>Scenarios\<close>

text \<open>
  A sequence of calls on one store, run in order; a panic ends the run. The flag of
  \<open>Delete\<close> is dropped: a background compaction it starts appears in the sequence as a
  call of its own.
\<close>

datatype call = CallAdd key val | CallDelete key | CallCompactIncremental

fun run_calls :: "call list \<Rightarrow> BTreeIndexedStorage \<Rightarrow> panic + BTreeIndexedStorage" where
  "run_calls [] s = Inr s"
| "run_calls (CallAdd index v # rest) s = run_calls rest (Add index v s)"
| "run_calls (CallDelete index # rest) s =
     (case Delete index s of Inl p \<Rightarrow> Inl p | Inr (s', started) \<Rightarrow> run_calls rest s')"
| "run_calls (CallCompactIncremental # rest) s =
     (case CompactIncremental s of Inl p \<Rightarrow> Inl p | Inr s' \<Rightarrow> run_calls rest s')"

definition key1 :: key where "key1 = [1, 0, 0, 0, 0, 0, 0, 0]"
definition key2 :: key where "key2 = [2, 0, 0, 0, 0, 0, 0, 0]"
definition key3 :: key where "key3 = [3, 0, 0, 0, 0, 0, 0, 0]"
definition foo :: "byte list" where "foo = [0x66, 0x6F, 0x6F]"
definition bar :: "byte list" where "bar = [0x62, 0x61, 0x72]"
definition baz :: "byte list" where "baz = [0x62, 0x61, 0x7A]"

definition three_keys :: "call list" where
  "three_keys = [CallAdd key1 (Some foo), CallAdd key2 (Some bar), CallAdd key3 (Some baz)]"

definition store_of_three :: "int \<Rightarrow> BTreeIndexedStorage" where
  "store_of_three bs =
     Add key3 (Some baz) (Add key2 (Some bar) (Add key1 (Some foo) (NewBTreeIndexedStorage 16 10 (3/10) bs)))"

definition store_with_nil :: "int \<Rightarrow> BTreeIndexedStorage" where
  "store_with_nil bs =
     Add key3 (Some baz) (Add key2 None (Add key1 (Some foo) (NewBTreeIndexedStorage 16 10 (3/10) bs)))"

definition store_with_two_nil :: "int \<Rightarrow> BTreeIndexedStorage" where
  "store_with_two_nil bs =
     Add key3 None (Add key2 None (Add key1 (Some foo) (NewBTreeIndexedStorage 16 10 (3/10) bs)))"

text \<open>
  \<^verbatim>\<open>time.Unix(seconds, 0)\<close>, and a store with five record objects: three filter records
  with the keys \<^verbatim>\<open>a\<close>, \<^verbatim>\<open>b\<close>, \<^verbatim>\<open>c\<close> at the addresses 1, 2, 3, a value record with the
  key \<^verbatim>\<open>b\<close> at 4 and a filter record with the key \<^verbatim>\<open>b\<close> at 5, used as a probe.
\<close>

definition time_Unix :: "int \<Rightarrow> Time" where
  "time_Unix seconds = seconds * 1000000000"

definition heap0 :: world where
  "heap0 =
     \<lparr>index_tree = [],
      objs = (\<lambda>_. FilterNodeItem None 0)
        (1 := FilterNodeItem (Some 1) 0, 2 := FilterNodeItem (Some 2) 0,
         3 := FilterNodeItem (Some 3) 0, 4 := ValueNodeItem (Some 6) (Some 4) 0,
         5 := FilterNodeItem (Some 5) 0),
      arrs = (\<lambda>_. [])
        (1 := [0x61], 2 := [0x62], 3 := [0x63], 4 := [0x62], 5 := [0x62], 6 := [0x76]),
      brk = 7\<rparr>"

definition boundary_world :: world where
  "boundary_world =
     fst (UpsertAt (Some 3) (time_Unix 19971)
       (fst (UpsertAt (Some 2) (time_Unix 19970)
         (fst (UpsertAt (Some 1) (time_Unix 19969) heap0)))))"

definition upsert_once :: world where
  "upsert_once = fst (UpsertAt (Some 2) (time_Unix 100) heap0)"

definition upsert_twice :: world where
  "upsert_twice = fst (UpsertAt (Some 4) (time_Unix 200) upsert_once)"

text \<open>A callback that records each key and overwrites its first byte with \<^verbatim>\<open>z\<close>.\<close>

definition scribble :: "byte list list callback" where
  "scribble c key ts = (c @ [key], [(0, 0x7A)], True)"

section \<open>The ordered list as an index\<close>

lemma Compare_less_iff: "Compare a b < 0 \<longleftrightarrow> a < b"
  by (induction a b rule: Compare.induct) auto

lemma Compare_eq_iff: "Compare a b = 0 \<longleftrightarrow> a = b"
  by (induction a b rule: Compare.induct) auto

lemma entry_Less_eq: "entry_Less = (\<lambda>a b. entry_k a < entry_k b)"
  by (intro ext) (simp add: entry_Less_def Compare_less_iff)

lemma Less_eq: "Less w = (\<lambda>a b. bytes_of w (Key w a) < bytes_of w (Key w b))"
  by (intro ext) (simp add: Less_def Compare_less_iff)

lemma btree_Get_sound:
  fixes f :: "'a \<Rightarrow> 'k::linorder"
  shows "btree_Get (\<lambda>a b. f a < f b) xs p = Some x \<Longrightarrow> x \<in> set xs \<and> f x = f p"
  by (induction xs) (auto split: if_splits)

lemma btree_Get_complete:
  fixes f :: "'a \<Rightarrow> 'k::linorder"
  shows "sorted_wrt (\<lambda>a b. f a < f b) xs \<Longrightarrow> x \<in> set xs \<Longrightarrow> f x = f p
    \<Longrightarrow> btree_Get (\<lambda>a b. f a < f b) xs p = Some x"
  by (induction xs) (auto split: if_splits)

lemma btree_Get_None_iff:
  fixes f :: "'a \<Rightarrow> 'k::linorder"
  shows "sorted_wrt (\<lambda>a b. f a < f b) xs
    \<Longrightarrow> btree_Get (\<lambda>a b. f a < f b) xs p = None \<longleftrightarrow> f p \<notin> f ` set xs"
  by (induction xs) (auto split: if_splits)

lemma ReplaceOrInsert_at_end:
  fixes f :: "'a \<Rightarrow> 'k::linorder"
  shows "\<forall>y\<in>set xs. f y < f x \<Longrightarrow> btree_ReplaceOrInsert (\<lambda>a b. f a < f b) x xs = (xs @ [x], None)"
  by (induction xs) auto

lemma ReplaceOrInsert_set:
  fixes f :: "'a \<Rightarrow> 'k::linorder"
  shows "sorted_wrt (\<lambda>a b. f a < f b) xs
    \<Longrightarrow> set (fst (btree_ReplaceOrInsert (\<lambda>a b. f a < f b) x xs)) = insert x {y \<in> set xs. f y \<noteq> f x}"
  by (induction xs) (auto split: prod.splits)

lemma ReplaceOrInsert_sorted:
  fixes f :: "'a \<Rightarrow> 'k::linorder"
  shows "sorted_wrt (\<lambda>a b. f a < f b) xs
    \<Longrightarrow> sorted_wrt (\<lambda>a b. f a < f b) (fst (btree_ReplaceOrInsert (\<lambda>a b. f a < f b) x xs))"
proof (induction xs)
  case Nil
  then show ?case by simp
next
  case (Cons y ys)
  then show ?case
    using ReplaceOrInsert_set [of f ys x]
    by (auto split: prod.splits)
qed

lemma ReplaceOrInsert_prev:
  fixes f :: "'a \<Rightarrow> 'k::linorder"
  shows "snd (btree_ReplaceOrInsert (\<lambda>a b. f a < f b) x xs) = btree_Get (\<lambda>a b. f a < f b) xs x"
  by (induction xs) (auto split: prod.splits)

lemma btree_Get_ReplaceOrInsert:
  fixes f :: "'a \<Rightarrow> 'k::linorder"
  shows "sorted_wrt (\<lambda>a b. f a < f b) xs
    \<Longrightarrow> btree_Get (\<lambda>a b. f a < f b) (fst (btree_ReplaceOrInsert (\<lambda>a b. f a < f b) x xs)) p
      = (if f p = f x then Some x else btree_Get (\<lambda>a b. f a < f b) xs p)"
  by (induction xs) (auto split: prod.splits)

lemma btree_Delete_filter:
  fixes f :: "'a \<Rightarrow> 'k::linorder"
  shows "sorted_wrt (\<lambda>a b. f a < f b) xs
    \<Longrightarrow> fst (btree_Delete (\<lambda>a b. f a < f b) p xs) = filter (\<lambda>y. f y \<noteq> f p) xs"
  by (induction xs) (auto split: prod.splits intro!: filter_True [symmetric])

lemma btree_Delete_removed:
  fixes f :: "'a \<Rightarrow> 'k::linorder"
  shows "snd (btree_Delete (\<lambda>a b. f a < f b) p xs) = btree_Get (\<lambda>a b. f a < f b) xs p"
  by (induction xs) (auto split: prod.splits)

lemma renumbered_Nil: "renumbered n [] = []"
  by (simp add: renumbered_def)

lemma renumbered_Cons: "renumbered n (e # es) = \<lparr>entry_k = entry_k e, entry_pos = n\<rparr> # renumbered (Suc n) es"
  by (simp add: renumbered_def)

lemma live_entries_Nil: "live_entries s [] = []"
  by (simp add: live_entries_def)

lemma live_entries_Cons:
  "live_entries s (e # es) = (if storage s ! entry_pos e \<noteq> None then e # live_entries s es else live_entries s es)"
  by (simp add: live_entries_def)

lemma compact_visit_live:
  assumes "entry_pos e < length (storage s)" "storage s ! entry_pos e \<noteq> None"
    "\<forall>x\<in>set nt. entry_k x < entry_k e"
  shows "compact_visit s e (ns, nt, c) =
    Inr ((ns @ [storage s ! entry_pos e], nt @ [\<lparr>entry_k = entry_k e, entry_pos = length ns\<rparr>], c + 1),
         \<not> (batchSize s > 0 \<and> c + 1 \<ge> batchSize s))"
proof -
  have "btree_ReplaceOrInsert (\<lambda>a b. entry_k a < entry_k b) \<lparr>entry_k = entry_k e, entry_pos = length ns\<rparr> nt
      = (nt @ [\<lparr>entry_k = entry_k e, entry_pos = length ns\<rparr>], None)"
    using assms(3) by (intro ReplaceOrInsert_at_end) simp
  then show ?thesis
    using assms(1,2) by (simp add: compact_visit_def entry_Less_eq Let_def)
qed

lemma compact_visit_dead:
  assumes "entry_pos e < length (storage s)" "storage s ! entry_pos e = None"
  shows "compact_visit s e (ns, nt, c) =
    Inr ((ns, nt, c + 1), \<not> (batchSize s > 0 \<and> c + 1 \<ge> batchSize s))"
  using assms by (simp add: compact_visit_def Let_def)

lemma compact_loop:
  assumes "\<forall>e\<in>set es. entry_pos e < length (storage s)"
    and "sorted_wrt (\<lambda>a b. entry_k a < entry_k b) es"
    and "\<forall>x\<in>set nt. \<forall>e\<in>set es. entry_k x < entry_k e"
    and "batchSize s > 0 \<longrightarrow> c < batchSize s"
  shows "btree_Ascend es (compact_visit s) (ns, nt, c) =
    (let vis = (if batchSize s > 0 then take (nat (batchSize s - c)) es else es);
         live = live_entries s vis
     in Inr (ns @ map (\<lambda>e. storage s ! entry_pos e) live,
             nt @ renumbered (length ns) live,
             c + int (length vis)))"
  using assms
proof (induction es arbitrary: ns nt c)
  case Nil
  then show ?case by (simp add: live_entries_Nil renumbered_Nil)
next
  case (Cons e es)
  have inr: "entry_pos e < length (storage s)" using Cons.prems(1) by simp
  have tk: "batchSize s > 0 \<Longrightarrow> take (nat (batchSize s - c)) (e # es) = e # take (nat (batchSize s - (c + 1))) es"
  proof -
    assume "batchSize s > 0"
    then have "nat (batchSize s - c) = Suc (nat (batchSize s - (c + 1)))"
      using Cons.prems(4) by simp
    then show ?thesis by simp
  qed
  show ?case
  proof (cases "storage s ! entry_pos e = None")
    case True
    have v: "compact_visit s e (ns, nt, c) = Inr ((ns, nt, c + 1), \<not> (batchSize s > 0 \<and> c + 1 \<ge> batchSize s))"
      using inr True by (rule compact_visit_dead)
    show ?thesis
    proof (cases "batchSize s > 0 \<and> c + 1 \<ge> batchSize s")
      case stop: True
      then have "nat (batchSize s - (c + 1)) = 0" by simp
      then show ?thesis using v stop True tk
        by (simp add: live_entries_Cons live_entries_Nil renumbered_Nil Let_def)
    next
      case go: False
      have ih: "btree_Ascend es (compact_visit s) (ns, nt, c + 1) =
        (let vis = (if batchSize s > 0 then take (nat (batchSize s - (c + 1))) es else es);
             live = live_entries s vis
         in Inr (ns @ map (\<lambda>e. storage s ! entry_pos e) live, nt @ renumbered (length ns) live,
                 c + 1 + int (length vis)))"
        using Cons.prems go by (intro Cons.IH) auto
      show ?thesis using v go True tk ih
        by (auto simp add: live_entries_Cons Let_def)
    qed
  next
    case False
    have lt: "\<forall>x\<in>set nt. entry_k x < entry_k e" using Cons.prems(3) by simp
    have v: "compact_visit s e (ns, nt, c) =
      Inr ((ns @ [storage s ! entry_pos e], nt @ [\<lparr>entry_k = entry_k e, entry_pos = length ns\<rparr>], c + 1),
           \<not> (batchSize s > 0 \<and> c + 1 \<ge> batchSize s))"
      using inr False lt by (rule compact_visit_live)
    show ?thesis
    proof (cases "batchSize s > 0 \<and> c + 1 \<ge> batchSize s")
      case stop: True
      then have "nat (batchSize s - (c + 1)) = 0" by simp
      then show ?thesis using v stop False tk
        by (simp add: live_entries_Cons live_entries_Nil renumbered_Nil renumbered_Cons Let_def)
    next
      case go: False
      have ih: "btree_Ascend es (compact_visit s)
          (ns @ [storage s ! entry_pos e], nt @ [\<lparr>entry_k = entry_k e, entry_pos = length ns\<rparr>], c + 1) =
        (let vis = (if batchSize s > 0 then take (nat (batchSize s - (c + 1))) es else es);
             live = live_entries s vis
         in Inr ((ns @ [storage s ! entry_pos e]) @ map (\<lambda>e. storage s ! entry_pos e) live,
                 (nt @ [\<lparr>entry_k = entry_k e, entry_pos = length ns\<rparr>])
                   @ renumbered (length (ns @ [storage s ! entry_pos e])) live,
                 c + 1 + int (length vis)))"
        using Cons.prems go by (intro Cons.IH) auto
      show ?thesis using v go False tk ih
        by (auto simp add: live_entries_Cons renumbered_Cons Let_def)
    qed
  qed
qed

lemma store_inv_iff:
  "store_inv s \<longleftrightarrow> sorted_wrt (\<lambda>a b. entry_k a < entry_k b) (tree s)
     \<and> (\<forall>e\<in>set (tree s). entry_pos e < length (storage s))"
  by (simp add: store_inv_def entry_Less_eq list_all_iff)

lemma CompactIncremental_rebuilt:
  assumes "store_inv s"
  shows "CompactIncremental s = Inr (rebuilt s)"
proof -
  have "btree_Ascend (tree s) (compact_visit s) ([], [], 0) =
    (let vis = (if batchSize s > 0 then take (nat (batchSize s - 0)) (tree s) else tree s);
         live = live_entries s vis
     in Inr ([] @ map (\<lambda>e. storage s ! entry_pos e) live, [] @ renumbered (length ([]::val list)) live,
             0 + int (length vis)))"
    using assms by (intro compact_loop) (auto simp add: store_inv_iff)
  then show ?thesis
    by (simp add: CompactIncremental_def rebuilt_def scanned_def Let_def)
qed

lemma map_entry_k_renumbered: "map entry_k (renumbered n es) = map entry_k es"
  by (induction es arbitrary: n) (simp_all add: renumbered_Nil renumbered_Cons)

lemma map_entry_pos_renumbered: "map entry_pos (renumbered n es) = [n..<n + length es]"
  by (induction es arbitrary: n) (simp_all add: renumbered_Nil renumbered_Cons upt_rec)

lemma sorted_keys_map:
  "sorted_wrt (\<lambda>a b. entry_k a < entry_k b) es \<longleftrightarrow> sorted_wrt (<) (map entry_k es)"
  by (simp add: sorted_wrt_map)

lemma sorted_live_scanned:
  assumes "sorted_wrt (\<lambda>a b. entry_k a < entry_k b) (tree s)"
  shows "sorted_wrt (\<lambda>a b. entry_k a < entry_k b) (live_entries s (scanned s))"
proof -
  have "sorted_wrt (\<lambda>a b. entry_k a < entry_k b) (scanned s)"
    using assms by (simp add: scanned_def)
  then show ?thesis
    unfolding live_entries_def by (rule sorted_wrt_filter)
qed

lemma store_inv_rebuilt:
  assumes "store_inv s"
  shows "store_inv (rebuilt s)"
proof -
  let ?live = "live_entries s (scanned s)"
  have "sorted_wrt (<) (map entry_k (renumbered 0 ?live))"
    using sorted_live_scanned [of s] assms
    by (simp add: map_entry_k_renumbered store_inv_iff sorted_wrt_map)
  moreover have "\<forall>e\<in>set (renumbered 0 ?live). entry_pos e < length ?live"
  proof
    fix e assume "e \<in> set (renumbered 0 ?live)"
    then have "entry_pos e \<in> set (map entry_pos (renumbered 0 ?live))" by simp
    then show "entry_pos e < length ?live" by (simp add: map_entry_pos_renumbered)
  qed
  ultimately show ?thesis
    by (simp add: store_inv_iff rebuilt_def sorted_wrt_map)
qed

lemma store_inv_New: "store_inv (NewBTreeIndexedStorage deg capacity thr bs)"
  by (simp add: store_inv_def NewBTreeIndexedStorage_def)

lemma probe_key: "entry_k (probe index) = index"
  by (simp add: probe_def)

lemma store_inv_Add:
  assumes "store_inv s"
  shows "store_inv (Add index v s)"
proof (cases "btree_Get entry_Less (tree s) (probe index)")
  case None
  let ?e = "\<lparr>entry_k = index, entry_pos = length (storage s)\<rparr>"
  let ?t = "fst (btree_ReplaceOrInsert (\<lambda>a b. entry_k a < entry_k b) ?e (tree s))"
  have srt: "sorted_wrt (\<lambda>a b. entry_k a < entry_k b) (tree s)"
    using assms by (simp add: store_inv_iff)
  have "sorted_wrt (\<lambda>a b. entry_k a < entry_k b) ?t"
    using srt by (rule ReplaceOrInsert_sorted)
  moreover have "set ?t = insert ?e {y \<in> set (tree s). entry_k y \<noteq> entry_k ?e}"
    using srt by (rule ReplaceOrInsert_set)
  ultimately show ?thesis
    using assms None by (auto simp add: Add_def store_inv_iff entry_Less_eq Let_def less_Suc_eq)
next
  case (Some a)
  then show ?thesis using assms by (simp add: Add_def)
qed

lemma store_inv_Delete:
  assumes "store_inv s" "Delete index s = Inr (s', fl)"
  shows "store_inv s'"
proof -
  have srt: "sorted_wrt (\<lambda>a b. entry_k a < entry_k b) (tree s)"
    using assms(1) by (simp add: store_inv_iff)
  have f: "fst (btree_Delete (\<lambda>a b. entry_k a < entry_k b) (probe index) (tree s))
      = filter (\<lambda>y. entry_k y \<noteq> entry_k (probe index)) (tree s)"
    using srt by (rule btree_Delete_filter)
  have "sorted_wrt (\<lambda>a b. entry_k a < entry_k b) (filter (\<lambda>y. entry_k y \<noteq> entry_k (probe index)) (tree s))"
    using srt by (rule sorted_wrt_filter)
  then show ?thesis
    using assms f
    by (auto simp add: Delete_def store_inv_iff entry_Less_eq Let_def split: prod.splits option.splits if_splits)
qed

lemma Delete_returns:
  assumes "store_inv s"
  shows "\<exists>s' fl. Delete index s = Inr (s', fl)"
proof (cases "btree_Delete entry_Less (probe index) (tree s)")
  case (Pair t removed)
  show ?thesis
  proof (cases removed)
    case None
    then show ?thesis using Pair by (auto simp add: Delete_def)
  next
    case (Some item)
    have "btree_Get (\<lambda>a b. entry_k a < entry_k b) (tree s) (probe index) = Some item"
      using Pair Some btree_Delete_removed [of entry_k "probe index" "tree s"]
      by (simp add: entry_Less_eq)
    then have "item \<in> set (tree s)" by (auto dest: btree_Get_sound)
    then have "entry_pos item < length (storage s)"
      using assms by (simp add: store_inv_iff)
    then show ?thesis using Pair Some by (auto simp add: Delete_def Let_def)
  qed
qed

lemma Get_after_Add:
  assumes "store_inv s" "k \<notin> entry_k ` set (tree s)"
  shows "Get k (Add k v s) = Inr (v, True)"
    and "btree_Get entry_Less (tree (Add k v s)) (probe k) \<noteq> None"
proof -
  let ?e = "\<lparr>entry_k = k, entry_pos = length (storage s)\<rparr>"
  have srt: "sorted_wrt (\<lambda>a b. entry_k a < entry_k b) (tree s)"
    using assms(1) by (simp add: store_inv_iff)
  have absent: "btree_Get (\<lambda>a b. entry_k a < entry_k b) (tree s) (probe k) = None"
    using srt assms(2) by (simp add: btree_Get_None_iff probe_key)
  have found: "btree_Get (\<lambda>a b. entry_k a < entry_k b)
      (fst (btree_ReplaceOrInsert (\<lambda>a b. entry_k a < entry_k b) ?e (tree s))) (probe k) = Some ?e"
    using srt by (simp add: btree_Get_ReplaceOrInsert probe_key)
  show "Get k (Add k v s) = Inr (v, True)"
    using absent found by (simp add: Get_def Add_def entry_Less_eq Let_def)
  show "btree_Get entry_Less (tree (Add k v s)) (probe k) \<noteq> None"
    using absent found by (simp add: Add_def entry_Less_eq Let_def)
qed

text \<open>
  Claim C7. On a store that satisfies its invariant, \<open>Add\<close> on a key that is already in
  the index changes nothing: the store is the same, so its backing sequence, its index,
  \<open>Len\<close> and \<open>Get\<close> are the same. When the key is new, the value of the first \<open>Add\<close> is
  the one \<open>Get\<close> returns, also after a second \<open>Add\<close> on that key (first writer wins).
\<close>

theorem Add_first_writer_wins:
  assumes "store_inv s"
  shows "(k \<in> entry_k ` set (tree s) \<longrightarrow>
            Add k v2 s = s \<and> storage (Add k v2 s) = storage s \<and> tree (Add k v2 s) = tree s
            \<and> Len (Add k v2 s) = Len s \<and> Get k (Add k v2 s) = Get k s)
       \<and> (k \<notin> entry_k ` set (tree s) \<longrightarrow>
            Get k (Add k v1 s) = Inr (v1, True)
            \<and> Add k v2 (Add k v1 s) = Add k v1 s
            \<and> Get k (Add k v2 (Add k v1 s)) = Inr (v1, True))"
proof (intro conjI impI)
  assume "k \<in> entry_k ` set (tree s)"
  then have "btree_Get (\<lambda>a b. entry_k a < entry_k b) (tree s) (probe k) \<noteq> None"
    using assms by (simp add: store_inv_iff btree_Get_None_iff probe_key)
  then show same: "Add k v2 s = s"
    by (auto simp add: Add_def entry_Less_eq)
  show "storage (Add k v2 s) = storage s" "tree (Add k v2 s) = tree s"
    "Len (Add k v2 s) = Len s" "Get k (Add k v2 s) = Get k s"
    by (simp_all add: same)
next
  assume absent: "k \<notin> entry_k ` set (tree s)"
  show first: "Get k (Add k v1 s) = Inr (v1, True)"
    using assms absent by (rule Get_after_Add)
  have "btree_Get entry_Less (tree (Add k v1 s)) (probe k) \<noteq> None"
    using assms absent by (rule Get_after_Add)
  then show again: "Add k v2 (Add k v1 s) = Add k v1 s"
    by (auto simp add: Add_def [of k v2])
  show "Get k (Add k v2 (Add k v1 s)) = Inr (v1, True)"
    by (simp add: again first)
qed

theorem Add_first_writer_wins_witness:
  "store_inv (NewBTreeIndexedStorage 16 10 (3/10) 100)
   \<and> key1 \<notin> entry_k ` set (tree (NewBTreeIndexedStorage 16 10 (3/10) 100))
   \<and> Get key1 (Add key1 (Some bar) (Add key1 (Some foo) (NewBTreeIndexedStorage 16 10 (3/10) 100)))
       = Inr (Some foo, True)
   \<and> key1 \<in> entry_k ` set (tree (Add key1 (Some foo) (NewBTreeIndexedStorage 16 10 (3/10) 100)))
   \<and> store_inv (Add key1 (Some foo) (NewBTreeIndexedStorage 16 10 (3/10) 100))
   \<and> Add key1 (Some bar) (Add key1 (Some foo) (NewBTreeIndexedStorage 16 10 (3/10) 100))
       = Add key1 (Some foo) (NewBTreeIndexedStorage 16 10 (3/10) 100)"
proof -
  let ?s0 = "NewBTreeIndexedStorage 16 10 (3/10) 100"
  have inv0: "store_inv ?s0" by (rule store_inv_New)
  have absent: "key1 \<notin> entry_k ` set (tree ?s0)" by (simp add: NewBTreeIndexedStorage_def)
  have inv1: "store_inv (Add key1 (Some foo) ?s0)" using inv0 by (rule store_inv_Add)
  have present: "key1 \<in> entry_k ` set (tree (Add key1 (Some foo) ?s0))"
    by (simp add: NewBTreeIndexedStorage_def Add_def Let_def)
  have "Get key1 (Add key1 (Some bar) (Add key1 (Some foo) ?s0)) = Inr (Some foo, True)"
    using Add_first_writer_wins [OF inv0, of key1 "Some bar" "Some foo"] absent by blast
  moreover have "Add key1 (Some bar) (Add key1 (Some foo) ?s0) = Add key1 (Some foo) ?s0"
    using Add_first_writer_wins [OF inv1, of key1 "Some bar" "Some foo"] present by blast
  ultimately show ?thesis using inv0 inv1 absent present by blast
qed

section \<open>Compaction of the append-log store\<close>

lemma scanned_cover:
  assumes "batchSize s \<le> 0 \<or> int (length (tree s)) \<le> batchSize s"
  shows "scanned s = tree s"
  using assms by (auto simp add: scanned_def)

lemma distinct_keys:
  assumes "sorted_wrt (\<lambda>a b. entry_k a < entry_k b) es"
  shows "distinct (map entry_k es)"
proof -
  have "sorted_wrt (<) (map entry_k es)" using assms by (simp add: sorted_wrt_map)
  then show ?thesis by (simp add: strict_sorted_iff)
qed

lemma Get_indexed:
  assumes "store_inv s" "e \<in> set (tree s)"
  shows "Get (entry_k e) s = Inr (storage s ! entry_pos e, True)"
proof -
  have "btree_Get (\<lambda>a b. entry_k a < entry_k b) (tree s) (probe (entry_k e)) = Some e"
    using assms by (intro btree_Get_complete) (simp_all add: store_inv_iff probe_key)
  moreover have "entry_pos e < length (storage s)"
    using assms by (simp add: store_inv_iff)
  ultimately show ?thesis by (simp add: Get_def entry_Less_eq)
qed

lemma Get_rebuilt_absent:
  assumes "store_inv s" "k \<notin> entry_k ` set (live_entries s (scanned s))"
  shows "Get k (rebuilt s) = Inr (None, False)"
proof -
  let ?t = "renumbered 0 (live_entries s (scanned s))"
  have "sorted_wrt (\<lambda>a b. entry_k a < entry_k b) ?t"
    using store_inv_rebuilt [OF assms(1)] by (simp add: store_inv_iff rebuilt_def)
  moreover have "entry_k ` set ?t = entry_k ` set (live_entries s (scanned s))"
    using map_entry_k_renumbered [of 0 "live_entries s (scanned s)"]
    by (metis set_map)
  ultimately have "btree_Get (\<lambda>a b. entry_k a < entry_k b) ?t (probe k) = None"
    using assms(2) by (simp add: btree_Get_None_iff probe_key)
  then show ?thesis by (simp add: Get_def rebuilt_def entry_Less_eq)
qed


lemma store_of_three_eval:
  "store_of_three bs =
     \<lparr>tree = [\<lparr>entry_k = key1, entry_pos = 0\<rparr>, \<lparr>entry_k = key2, entry_pos = 1\<rparr>,
              \<lparr>entry_k = key3, entry_pos = 2\<rparr>],
      storage = [Some foo, Some bar, Some baz], tombstones = 0, threshold = 3/10,
      degree = 16, batchSize = bs\<rparr>"
  by (simp add: store_of_three_def key1_def key2_def key3_def NewBTreeIndexedStorage_def Add_def
      probe_def entry_Less_def Let_def)

lemma store_with_nil_eval:
  "store_with_nil bs =
     \<lparr>tree = [\<lparr>entry_k = key1, entry_pos = 0\<rparr>, \<lparr>entry_k = key2, entry_pos = 1\<rparr>,
              \<lparr>entry_k = key3, entry_pos = 2\<rparr>],
      storage = [Some foo, None, Some baz], tombstones = 0, threshold = 3/10,
      degree = 16, batchSize = bs\<rparr>"
  by (simp add: store_with_nil_def key1_def key2_def key3_def NewBTreeIndexedStorage_def Add_def
      probe_def entry_Less_def Let_def)

lemma store_inv_store_of_three: "store_inv (store_of_three bs)"
  unfolding store_of_three_def by (intro store_inv_Add store_inv_New)

lemma store_inv_store_with_nil: "store_inv (store_with_nil bs)"
  unfolding store_with_nil_def by (intro store_inv_Add store_inv_New)

text \<open>
  Claim C1. When \<open>batchSize\<close> is positive and the index holds more entries than
  \<open>batchSize\<close>, \<open>CompactIncremental\<close> returns a store whose backing sequence and index
  are built from the first \<open>batchSize\<close> entries of the ascending traversal alone, with the
  tombstone counter at zero. Every entry beyond them, which \<open>Get\<close> found before, is not
  found afterwards; the scanned entries are the ones with the smallest keys.
\<close>

theorem CompactIncremental_keeps_only_first_batch:
  assumes "store_inv s" and "batchSize s > 0" and "int (length (tree s)) > batchSize s"
  shows "\<exists>s'. CompactIncremental s = Inr s'
       \<and> storage s' = map (\<lambda>e. storage s ! entry_pos e)
                          (live_entries s (take (nat (batchSize s)) (tree s)))
       \<and> tree s' = renumbered 0 (live_entries s (take (nat (batchSize s)) (tree s)))
       \<and> tombstones s' = 0
       \<and> (\<forall>x\<in>set (take (nat (batchSize s)) (tree s)).
            \<forall>y\<in>set (drop (nat (batchSize s)) (tree s)). Compare (entry_k x) (entry_k y) < 0)
       \<and> (\<forall>e\<in>set (drop (nat (batchSize s)) (tree s)).
            Get (entry_k e) s = Inr (storage s ! entry_pos e, True)
            \<and> Get (entry_k e) s' = Inr (None, False))"
proof (intro exI [of _ "rebuilt s"] conjI ballI)
  let ?b = "nat (batchSize s)"
  have sc: "scanned s = take ?b (tree s)"
    using assms(2) by (simp add: scanned_def)
  show "CompactIncremental s = Inr (rebuilt s)"
    using assms(1) by (rule CompactIncremental_rebuilt)
  show "storage (rebuilt s) = map (\<lambda>e. storage s ! entry_pos e) (live_entries s (take ?b (tree s)))"
    and "tree (rebuilt s) = renumbered 0 (live_entries s (take ?b (tree s)))"
    and "tombstones (rebuilt s) = 0"
    by (simp_all add: rebuilt_def sc)
  have srt: "sorted_wrt (\<lambda>a b. entry_k a < entry_k b) (take ?b (tree s) @ drop ?b (tree s))"
    using assms(1) by (simp add: store_inv_iff)
  then have cross: "\<forall>x\<in>set (take ?b (tree s)). \<forall>y\<in>set (drop ?b (tree s)). entry_k x < entry_k y"
    unfolding sorted_wrt_append by blast
  {
    fix x y assume "x \<in> set (take ?b (tree s))" "y \<in> set (drop ?b (tree s))"
    then show "Compare (entry_k x) (entry_k y) < 0"
      using cross by (simp add: Compare_less_iff)
  }
  {
    fix e assume e: "e \<in> set (drop ?b (tree s))"
    then have "e \<in> set (tree s)" by (rule in_set_dropD)
    then show "Get (entry_k e) s = Inr (storage s ! entry_pos e, True)"
      using assms(1) by (intro Get_indexed)
    have "entry_k e \<notin> entry_k ` set (take ?b (tree s))"
    proof
      assume "entry_k e \<in> entry_k ` set (take ?b (tree s))"
      then obtain x where x: "x \<in> set (take ?b (tree s))" "entry_k e = entry_k x" by auto
      with cross e have "entry_k x < entry_k e" by blast
      then show False using x(2) by simp
    qed
    then have "entry_k e \<notin> entry_k ` set (live_entries s (scanned s))"
      by (auto simp add: sc live_entries_def)
    then show "Get (entry_k e) (rebuilt s) = Inr (None, False)"
      using assms(1) by (intro Get_rebuilt_absent)
  }
qed

theorem CompactIncremental_keeps_only_first_batch_witness:
  "store_inv (store_of_three 1) \<and> batchSize (store_of_three 1) > 0
   \<and> int (length (tree (store_of_three 1))) > batchSize (store_of_three 1)
   \<and> (\<exists>s'. CompactIncremental (store_of_three 1) = Inr s'
         \<and> storage s' = [Some foo] \<and> tree s' = [\<lparr>entry_k = key1, entry_pos = 0\<rparr>]
         \<and> tombstones s' = 0
         \<and> Get key2 (store_of_three 1) = Inr (Some bar, True) \<and> Get key2 s' = Inr (None, False)
         \<and> Get key3 (store_of_three 1) = Inr (Some baz, True) \<and> Get key3 s' = Inr (None, False))"
proof -
  let ?s = "store_of_three 1"
  have h1: "store_inv ?s" by (rule store_inv_store_of_three)
  have h2: "batchSize ?s > 0" by (simp add: store_of_three_eval)
  have h3: "int (length (tree ?s)) > batchSize ?s" by (simp add: store_of_three_eval)
  from CompactIncremental_keeps_only_first_batch [OF h1 h2 h3]
  obtain s' where s': "CompactIncremental ?s = Inr s'"
    and st: "storage s' = map (\<lambda>e. storage ?s ! entry_pos e) (live_entries ?s (take (nat (batchSize ?s)) (tree ?s)))"
    and tr: "tree s' = renumbered 0 (live_entries ?s (take (nat (batchSize ?s)) (tree ?s)))"
    and tb: "tombstones s' = 0"
    and gone: "\<forall>e\<in>set (drop (nat (batchSize ?s)) (tree ?s)).
            Get (entry_k e) ?s = Inr (storage ?s ! entry_pos e, True)
            \<and> Get (entry_k e) s' = Inr (None, False)"
    by blast
  have "storage s' = [Some foo]"
    using st by (simp add: store_of_three_eval live_entries_def)
  moreover have "tree s' = [\<lparr>entry_k = key1, entry_pos = 0\<rparr>]"
    using tr by (simp add: store_of_three_eval live_entries_def renumbered_def)
  moreover have "Get key2 ?s = Inr (Some bar, True) \<and> Get key2 s' = Inr (None, False)
      \<and> Get key3 ?s = Inr (Some baz, True) \<and> Get key3 s' = Inr (None, False)"
    using gone by (simp add: store_of_three_eval)
  ultimately show ?thesis using h1 h2 h3 s' tb by blast
qed

lemma ne_Nil_if_mem: "x \<in> set xs \<Longrightarrow> xs \<noteq> []"
  by auto

lemma inj_on_keys:
  assumes "store_inv s"
  shows "inj_on entry_k (set (tree s))" and "distinct (tree s)"
proof -
  have "distinct (map entry_k (tree s))"
    using assms by (intro distinct_keys) (simp add: store_inv_iff)
  then show "inj_on entry_k (set (tree s))" and "distinct (tree s)"
    by (simp_all add: distinct_map)
qed

lemma Delete_indexed:
  assumes "store_inv s" "e \<in> set (tree s)"
  shows "Delete (entry_k e) s =
    Inr (s\<lparr>tree := filter (\<lambda>y. entry_k y \<noteq> entry_k e) (tree s),
           storage := (storage s)[entry_pos e := None],
           tombstones := tombstones s + 1\<rparr>,
         real_of_int (tombstones s + 1) / real (length (storage s)) > threshold s)"
proof -
  have srt: "sorted_wrt (\<lambda>a b. entry_k a < entry_k b) (tree s)"
    using assms(1) by (simp add: store_inv_iff)
  have "fst (btree_Delete (\<lambda>a b. entry_k a < entry_k b) (probe (entry_k e)) (tree s))
      = filter (\<lambda>y. entry_k y \<noteq> entry_k (probe (entry_k e))) (tree s)"
    using srt by (rule btree_Delete_filter)
  moreover have "snd (btree_Delete (\<lambda>a b. entry_k a < entry_k b) (probe (entry_k e)) (tree s)) = Some e"
    using srt assms(2) by (simp add: btree_Delete_removed btree_Get_complete probe_key)
  ultimately have "btree_Delete (\<lambda>a b. entry_k a < entry_k b) (probe (entry_k e)) (tree s)
      = (filter (\<lambda>y. entry_k y \<noteq> entry_k e) (tree s), Some e)"
    by (simp add: prod_eq_iff probe_key)
  moreover have "entry_pos e < length (storage s)"
    using assms by (simp add: store_inv_iff)
  ultimately show ?thesis
    by (simp add: Delete_def entry_Less_eq Let_def)
qed

text \<open>
  Among the distinct elements of a list, one that satisfies a predicate is the only one
  that does exactly when the filtered list has length one.
\<close>

lemma only_one_satisfies:
  assumes dist: "distinct xs" and e: "e \<in> set xs" "P e"
  shows "(length (filter P xs) = 1) = (\<forall>x\<in>set xs. x \<noteq> e \<longrightarrow> \<not> P x)"
proof
  assume "length (filter P xs) = 1"
  then obtain y where y: "filter P xs = [y]" by (auto simp add: length_Suc_conv)
  have "e \<in> set (filter P xs)" using e by simp
  then have "y = e" unfolding y by simp
  show "\<forall>x\<in>set xs. x \<noteq> e \<longrightarrow> \<not> P x"
  proof (intro ballI impI notI)
    fix x assume "x \<in> set xs" "x \<noteq> e" "P x"
    then have "x \<in> set (filter P xs)" by simp
    then show False unfolding y using \<open>y = e\<close> \<open>x \<noteq> e\<close> by simp
  qed
next
  assume only: "\<forall>x\<in>set xs. x \<noteq> e \<longrightarrow> \<not> P x"
  have "{x. P x} \<inter> set xs = {e}" using only e by auto
  then show "length (filter P xs) = 1" using dist by (simp add: distinct_length_filter)
qed

text \<open>
  Claim C10, as stated, fails. Three keys are added, the second and the third with a nil
  value, and none is deleted: \<open>Len\<close> is 3 and \<open>Get\<close> finds both nil-valued keys with the
  nil value. With \<open>batchSize = 0\<close> the scan of \<open>CompactIncremental\<close> covers the whole index
  and skips both entries, so \<open>Len\<close> is 1 afterwards, not 2: it has dropped by two, and
  neither nil-valued key is found.
\<close>

theorem compaction_drops_every_nil_valued_entry:
  "Len (store_with_two_nil 0) = 3
   \<and> Get key2 (store_with_two_nil 0) = Inr (None, True)
   \<and> Get key3 (store_with_two_nil 0) = Inr (None, True)
   \<and> map_sum id Len (CompactIncremental (store_with_two_nil 0)) = Inr 1
   \<and> map_sum id Len (CompactIncremental (store_with_two_nil 0))
       \<noteq> Inr (Len (store_with_two_nil 0) - 1)
   \<and> case_sum Inl (Get key1) (CompactIncremental (store_with_two_nil 0)) = Inr (Some foo, True)
   \<and> case_sum Inl (Get key2) (CompactIncremental (store_with_two_nil 0)) = Inr (None, False)
   \<and> case_sum Inl (Get key3) (CompactIncremental (store_with_two_nil 0)) = Inr (None, False)"
  by (simp add: store_with_two_nil_def key1_def key2_def key3_def NewBTreeIndexedStorage_def Add_def
      Get_def probe_def entry_Less_def Len_def btree_Len_def Let_def CompactIncremental_def compact_visit_def)

text \<open>
  Claim C10, as amended. An indexed entry whose slot holds the nil value (a key added with
  a nil value and not deleted since) is found by \<open>Get\<close> with the nil value. When the scan
  covers the whole index (\<open>batchSize\<close> not positive, or at least the number of entries),
  \<open>CompactIncremental\<close> returns a store in which that key is not found and which is the
  store that compaction returns after \<open>Delete\<close> of that key. \<open>Len\<close> drops by the number of
  indexed entries with a nil slot: by at least one, and by exactly one if and only if
  this entry is the only indexed entry with a nil slot.
\<close>

theorem CompactIncremental_drops_nil_valued_entry:
  assumes "store_inv s" and "e \<in> set (tree s)" and "storage s ! entry_pos e = None"
    and "batchSize s \<le> 0 \<or> int (length (tree s)) \<le> batchSize s"
  shows "Get (entry_k e) s = Inr (None, True)
       \<and> (\<exists>s'. CompactIncremental s = Inr s'
             \<and> Get (entry_k e) s' = Inr (None, False)
             \<and> Len s' = Len s - int (length (filter (\<lambda>x. storage s ! entry_pos x = None) (tree s)))
             \<and> Len s' < Len s
             \<and> ((Len s' = Len s - 1) = (\<forall>x\<in>set (tree s). x \<noteq> e \<longrightarrow> storage s ! entry_pos x \<noteq> None))
             \<and> (\<exists>sd started. Delete (entry_k e) s = Inr (sd, started) \<and> CompactIncremental sd = Inr s'))"
proof -
  let ?dead = "\<lambda>x. storage s ! entry_pos x = None"
  have sc: "scanned s = tree s" using assms(4) by (rule scanned_cover)
  have inj: "inj_on entry_k (set (tree s))" and dist: "distinct (tree s)"
    using assms(1) by (rule inj_on_keys)+
  have c1: "Get (entry_k e) s = Inr (None, True)"
    using Get_indexed [OF assms(1,2)] assms(3) by simp
  have reb: "CompactIncremental s = Inr (rebuilt s)"
    using assms(1) by (rule CompactIncremental_rebuilt)
  have "entry_k e \<notin> entry_k ` set (live_entries s (scanned s))"
  proof
    assume "entry_k e \<in> entry_k ` set (live_entries s (scanned s))"
    then obtain x where x: "x \<in> set (tree s)" "storage s ! entry_pos x \<noteq> None" "entry_k e = entry_k x"
      by (auto simp add: sc live_entries_def)
    have "x = e" using inj x(3) [symmetric] x(1) assms(2) by (rule inj_onD)
    then show False using x(2) assms(3) by simp
  qed
  then have c2: "Get (entry_k e) (rebuilt s) = Inr (None, False)"
    using assms(1) by (intro Get_rebuilt_absent)
  have split: "length (filter ?dead (tree s)) + length (live_entries s (tree s)) = length (tree s)"
    unfolding live_entries_def by (rule sum_length_filter_compl)
  have len: "Len (rebuilt s) = int (length (live_entries s (tree s)))"
    by (simp add: Len_def btree_Len_def rebuilt_def sc renumbered_def)
  have count: "Len (rebuilt s) = Len s - int (length (filter ?dead (tree s)))"
    using split len by (simp add: Len_def btree_Len_def)
  have "e \<in> set (filter ?dead (tree s))" using assms(2,3) by simp
  then have "filter ?dead (tree s) \<noteq> []" by (rule ne_Nil_if_mem)
  then have "length (filter ?dead (tree s)) > 0" by (rule iffD2 [OF length_greater_0_conv])
  then have c3: "Len (rebuilt s) < Len s" using count by simp
  have "(Len (rebuilt s) = Len s - 1) = (length (filter ?dead (tree s)) = 1)"
    using count by (simp add: Len_def btree_Len_def)
  also have "\<dots> = (\<forall>x\<in>set (tree s). x \<noteq> e \<longrightarrow> \<not> ?dead x)"
    using dist assms(2,3) by (rule only_one_satisfies)
  finally have c4: "(Len (rebuilt s) = Len s - 1)
      = (\<forall>x\<in>set (tree s). x \<noteq> e \<longrightarrow> storage s ! entry_pos x \<noteq> None)" .
  have same_storage: "(storage s)[entry_pos e := None] = storage s"
    using assms(3) list_update_id [of "storage s" "entry_pos e"] by simp
  let ?sd = "s\<lparr>tree := filter (\<lambda>y. entry_k y \<noteq> entry_k e) (tree s),
               tombstones := tombstones s + 1\<rparr>"
  let ?fl = "real_of_int (tombstones s + 1) / real (length (storage s)) > threshold s"
  have del: "Delete (entry_k e) s = Inr (?sd, ?fl)"
    using Delete_indexed [OF assms(1,2)] by (simp add: same_storage)
  have inv_sd: "store_inv ?sd"
    using assms(1) del by (rule store_inv_Delete)
  have le: "int (length (filter (\<lambda>y. entry_k y \<noteq> entry_k e) (tree s))) \<le> int (length (tree s))"
    by simp
  have "batchSize ?sd \<le> 0 \<or> int (length (tree ?sd)) \<le> batchSize ?sd"
  proof -
    have eq: "batchSize ?sd = batchSize s"
      "tree ?sd = filter (\<lambda>y. entry_k y \<noteq> entry_k e) (tree s)" by simp_all
    show ?thesis unfolding eq using le assms(4) by linarith
  qed
  then have sc_sd: "scanned ?sd = tree ?sd" by (rule scanned_cover)
  have keep: "filter (\<lambda>x. storage s ! entry_pos x \<noteq> None) (filter (\<lambda>y. entry_k y \<noteq> entry_k e) (tree s))
      = filter (\<lambda>x. storage s ! entry_pos x \<noteq> None) (tree s)"
    unfolding filter_filter
  proof (rule filter_cong [OF refl])
    fix x assume x: "x \<in> set (tree s)"
    show "(entry_k x \<noteq> entry_k e \<and> storage s ! entry_pos x \<noteq> None) = (storage s ! entry_pos x \<noteq> None)"
    proof (cases "entry_k x = entry_k e")
      case True
      have "x = e" using inj True x assms(2) by (rule inj_onD)
      then show ?thesis using assms(3) by simp
    next
      case False
      then show ?thesis by simp
    qed
  qed
  have tree_sd: "tree ?sd = filter (\<lambda>y. entry_k y \<noteq> entry_k e) (tree s)"
    and storage_sd: "storage ?sd = storage s" by simp_all
  have "live_entries ?sd (scanned ?sd) = live_entries ?sd (tree ?sd)"
    by (simp only: sc_sd)
  also have "\<dots> = filter (\<lambda>x. storage s ! entry_pos x \<noteq> None) (filter (\<lambda>y. entry_k y \<noteq> entry_k e) (tree s))"
    by (simp only: live_entries_def tree_sd storage_sd)
  also have "\<dots> = live_entries s (scanned s)"
    by (simp only: keep sc live_entries_def)
  finally have live_same: "live_entries ?sd (scanned ?sd) = live_entries s (scanned s)" .
  have "rebuilt ?sd = rebuilt s"
    unfolding rebuilt_def live_same storage_sd by simp
  then have "CompactIncremental ?sd = Inr (rebuilt s)"
    using CompactIncremental_rebuilt [OF inv_sd] by simp
  then have c5: "\<exists>sd started. Delete (entry_k e) s = Inr (sd, started) \<and> CompactIncremental sd = Inr (rebuilt s)"
    using del by blast
  show ?thesis
    apply (rule conjI [OF c1])
    apply (rule exI [of _ "rebuilt s"])
    apply (intro conjI)
         apply (rule reb)
        apply (rule c2)
       apply (rule count)
      apply (rule c3)
     apply (rule c4)
    apply (rule c5)
    done
qed

theorem CompactIncremental_drops_nil_valued_entry_witness:
  "store_inv (store_with_nil 0)
   \<and> \<lparr>entry_k = key2, entry_pos = 1\<rparr> \<in> set (tree (store_with_nil 0))
   \<and> storage (store_with_nil 0) ! 1 = None
   \<and> batchSize (store_with_nil 0) \<le> 0
   \<and> Len (store_with_nil 0) = 3
   \<and> Get key2 (store_with_nil 0) = Inr (None, True)
   \<and> (\<exists>s'. CompactIncremental (store_with_nil 0) = Inr s'
         \<and> Get key2 s' = Inr (None, False) \<and> Len s' = 2)"
proof -
  let ?s = "store_with_nil 0"
  let ?e = "\<lparr>entry_k = key2, entry_pos = 1\<rparr>"
  have h1: "store_inv ?s" by (rule store_inv_store_with_nil)
  have h2: "?e \<in> set (tree ?s)" by (simp add: store_with_nil_eval)
  have h3: "storage ?s ! entry_pos ?e = None" by (simp add: store_with_nil_eval)
  have h4: "batchSize ?s \<le> 0 \<or> int (length (tree ?s)) \<le> batchSize ?s"
    by (simp add: store_with_nil_eval)
  have len: "Len ?s = 3" by (simp add: store_with_nil_eval Len_def btree_Len_def)
  have only: "\<forall>x\<in>set (tree ?s). x \<noteq> ?e \<longrightarrow> storage ?s ! entry_pos x \<noteq> None"
    by (simp add: store_with_nil_eval)
  from CompactIncremental_drops_nil_valued_entry [OF h1 h2 h3 h4]
  obtain s' where g: "Get (entry_k ?e) ?s = Inr (None, True)"
    and c: "CompactIncremental ?s = Inr s'"
    and g': "Get (entry_k ?e) s' = Inr (None, False)"
    and l: "(Len s' = Len ?s - 1) = (\<forall>x\<in>set (tree ?s). x \<noteq> ?e \<longrightarrow> storage ?s ! entry_pos x \<noteq> None)"
    by blast
  have "Len s' = 2" using l only len by simp
  moreover have "Get key2 ?s = Inr (None, True)" using g by simp
  moreover have "Get key2 s' = Inr (None, False)" using g' by simp
  moreover have "storage ?s ! 1 = None" using h3 by simp
  moreover have "batchSize ?s \<le> 0" by (simp add: store_with_nil_eval)
  ultimately show ?thesis using h1 h2 len c by blast
qed

text \<open>
  When the scan covers the whole index and no indexed slot is nil, compaction keeps the
  number of entries, and a key that is not indexed is not found afterwards.
\<close>

lemma compaction_round_trip_when_scan_covers:
  assumes "store_inv s"
    and "batchSize s \<le> 0 \<or> int (length (tree s)) \<le> batchSize s"
    and "list_all (\<lambda>e. storage s ! entry_pos e \<noteq> None) (tree s)"
  shows "\<exists>s'. CompactIncremental s = Inr s' \<and> Len s' = Len s
    \<and> (\<forall>k. k \<notin> entry_k ` set (tree s) \<longrightarrow> Get k s' = Inr (None, False))"
proof -
  have sc: "scanned s = tree s" using assms(2) by (rule scanned_cover)
  have live: "live_entries s (tree s) = tree s"
    unfolding live_entries_def using assms(3) by (simp add: list_all_iff)
  have reb: "CompactIncremental s = Inr (rebuilt s)"
    using assms(1) by (rule CompactIncremental_rebuilt)
  have len: "Len (rebuilt s) = Len s"
    by (simp add: Len_def btree_Len_def rebuilt_def sc live renumbered_def)
  have gone: "\<forall>k. k \<notin> entry_k ` set (tree s) \<longrightarrow> Get k (rebuilt s) = Inr (None, False)"
  proof (intro allI impI)
    fix k assume "k \<notin> entry_k ` set (tree s)"
    then have "k \<notin> entry_k ` set (live_entries s (scanned s))" by (simp add: sc live)
    then show "Get k (rebuilt s) = Inr (None, False)"
      using assms(1) by (intro Get_rebuilt_absent)
  qed
  show ?thesis using reb len gone by blast
qed

text \<open>
  Claim C2. On a store with \<open>batchSize = 1\<close> and threshold one half, three keys are added
  and one is deleted; the delete starts no background compaction. \<open>Len\<close> is 2, the deleted
  key is not found and the third key is found. After \<open>CompactIncremental\<close>, \<open>Len\<close> is 1
  and the third key, never deleted, is not found.
\<close>

theorem compaction_after_delete_loses_entries:
  "map_sum id snd
     (Delete key2 (Add key3 (Some baz) (Add key2 (Some bar) (Add key1 (Some foo)
        (NewBTreeIndexedStorage 16 10 (1/2) 1))))) = Inr False
   \<and> map_sum id Len (run_calls (three_keys @ [CallDelete key2]) (NewBTreeIndexedStorage 16 10 (1/2) 1)) = Inr 2
   \<and> case_sum Inl (Get key2)
        (run_calls (three_keys @ [CallDelete key2]) (NewBTreeIndexedStorage 16 10 (1/2) 1))
       = Inr (None, False)
   \<and> case_sum Inl (Get key3)
        (run_calls (three_keys @ [CallDelete key2]) (NewBTreeIndexedStorage 16 10 (1/2) 1))
       = Inr (Some baz, True)
   \<and> map_sum id Len
        (run_calls (three_keys @ [CallDelete key2, CallCompactIncremental])
          (NewBTreeIndexedStorage 16 10 (1/2) 1)) = Inr 1
   \<and> case_sum Inl (Get key3)
        (run_calls (three_keys @ [CallDelete key2, CallCompactIncremental])
          (NewBTreeIndexedStorage 16 10 (1/2) 1)) = Inr (None, False)"
  by (simp add: three_keys_def key1_def key2_def key3_def NewBTreeIndexedStorage_def Add_def Delete_def
      Get_def probe_def entry_Less_def Len_def btree_Len_def Let_def CompactIncremental_def compact_visit_def)

section \<open>The TTL index: scan, purge and upsert\<close>

lemma Less_key_bytes: "Less w = (\<lambda>a b. key_bytes w a < key_bytes w b)"
  by (intro ext) (simp add: Less_def key_bytes_def Compare_less_iff)

lemma index_inv_iff: "index_inv w \<longleftrightarrow> sorted_wrt (\<lambda>a b. key_bytes w a < key_bytes w b) (index_tree w)"
  by (simp add: index_inv_def Less_key_bytes)

lemma list_visit_eq: "list_visit w c (m > 0) m = purge_visit w c m"
  by (intro ext) (simp add: list_visit_def purge_visit_def)

lemma purge_scan:
  assumes "m > 0 \<longrightarrow> int (length acc) < m"
  shows "btree_Ascend xs (purge_visit w c m) acc =
    Inr (acc @ (if m > 0 then take (nat m - length acc) (filter (\<lambda>a. GetExpirationTime w a \<le> c) xs)
                else filter (\<lambda>a. GetExpirationTime w a \<le> c) xs))"
  using assms
proof (induction xs arbitrary: acc)
  case Nil
  then show ?case by simp
next
  case (Cons x xs)
  show ?case
  proof (cases "GetExpirationTime w x \<le> c")
    case False
    then show ?thesis using Cons by (simp add: purge_visit_def)
  next
    case True
    show ?thesis
    proof (cases "m > 0 \<and> int (length (acc @ [x])) \<ge> m")
      case stop: True
      then have "nat m - length acc = Suc 0" using Cons.prems by auto
      then show ?thesis using True stop by (simp add: purge_visit_def Let_def)
    next
      case go: False
      then have pre: "m > 0 \<longrightarrow> int (length (acc @ [x])) < m" by auto
      have "m > 0 \<Longrightarrow> nat m - length acc = Suc (nat m - length (acc @ [x]))"
        using go by auto
      then show ?thesis using True go Cons.IH [OF pre]
        by (auto simp add: purge_visit_def Let_def)
    qed
  qed
qed

lemma scan_candidates:
  "btree_Ascend (index_tree w) (purge_visit w (Unix (time_Add now (- ttl))) m) [] = Inr (candidates w now ttl m)"
proof -
  have "eligible w now ttl = (\<lambda>a. GetExpirationTime w a \<le> Unix (time_Add now (- ttl)))"
    by (intro ext) (simp add: eligible_def)
  then show ?thesis
    using purge_scan [of m "[]" "index_tree w" w "Unix (time_Add now (- ttl))"]
    by (simp add: candidates_def Let_def)
qed

lemma ListExpiredAt_candidates:
  assumes "ttl > 0"
  shows "ListExpiredAt now ttl m w = Inr (Some (candidates w now ttl m))"
  using assms by (simp add: ListExpiredAt_def Let_def list_visit_eq scan_candidates)

lemma key_bytes_index_tree_update [simp]: "key_bytes (w\<lparr>index_tree := t\<rparr>) = key_bytes w"
  by (intro ext) (simp add: key_bytes_def bytes_of_def Key_def split: option.splits)

lemma Less_index_tree_update [simp]: "Less (w\<lparr>index_tree := t\<rparr>) = Less w"
  by (simp add: Less_key_bytes)

lemma eligible_index_tree_update [simp]: "eligible (w\<lparr>index_tree := t\<rparr>) = eligible w"
  by (intro ext) (simp add: eligible_def GetExpirationTime_def)

lemma sorted_keys_inj:
  fixes f :: "'a \<Rightarrow> 'k::linorder"
  assumes "sorted_wrt (\<lambda>a b. f a < f b) xs"
  shows "inj_on f (set xs)" and "distinct xs"
proof -
  have "sorted_wrt (<) (map f xs)" using assms by (simp add: sorted_wrt_map)
  then have "distinct (map f xs)" by (simp add: strict_sorted_iff)
  then show "inj_on f (set xs)" and "distinct xs" by (simp_all add: distinct_map)
qed

lemma btree_Delete_member:
  fixes f :: "'a \<Rightarrow> 'k::linorder"
  assumes "sorted_wrt (\<lambda>a b. f a < f b) xs" and "x \<in> set xs"
  shows "btree_Delete (\<lambda>a b. f a < f b) x xs = (filter (\<lambda>y. y \<noteq> x) xs, Some x)"
proof -
  have inj: "inj_on f (set xs)" using assms(1) by (rule sorted_keys_inj)
  have "filter (\<lambda>y. f y \<noteq> f x) xs = filter (\<lambda>y. y \<noteq> x) xs"
  proof (rule filter_cong [OF refl])
    fix y assume y: "y \<in> set xs"
    show "(f y \<noteq> f x) = (y \<noteq> x)"
    proof (cases "f y = f x")
      case True
      have "y = x" using inj True y assms(2) by (rule inj_onD)
      then show ?thesis using True by simp
    next
      case False
      then show ?thesis by auto
    qed
  qed
  then have "fst (btree_Delete (\<lambda>a b. f a < f b) x xs) = filter (\<lambda>y. y \<noteq> x) xs"
    using btree_Delete_filter [OF assms(1), of x] by simp
  moreover have "snd (btree_Delete (\<lambda>a b. f a < f b) x xs) = Some x"
    using assms by (simp add: btree_Delete_removed btree_Get_complete)
  ultimately show ?thesis by (simp add: prod_eq_iff)
qed

lemma purge_delete_loop_eq:
  assumes "sorted_wrt (\<lambda>a b. key_bytes w a < key_bytes w b) (index_tree w)"
    and "set ds \<subseteq> set (index_tree w)" and "distinct ds"
  shows "purge_delete_loop ds w d =
    (w\<lparr>index_tree := filter (\<lambda>a. a \<notin> set ds) (index_tree w)\<rparr>, d + int (length ds))"
  using assms
proof (induction ds arbitrary: w d)
  case Nil
  then show ?case by simp
next
  case (Cons item rest)
  let ?w1 = "w\<lparr>index_tree := filter (\<lambda>y. y \<noteq> item) (index_tree w)\<rparr>"
  have mem: "item \<in> set (index_tree w)" using Cons.prems(2) by simp
  have del: "btree_Delete (Less w) item (index_tree w) = (filter (\<lambda>y. y \<noteq> item) (index_tree w), Some item)"
    unfolding Less_key_bytes using Cons.prems(1) mem by (rule btree_Delete_member)
  have s1: "sorted_wrt (\<lambda>a b. key_bytes ?w1 a < key_bytes ?w1 b) (index_tree ?w1)"
    using Cons.prems(1) by (simp add: sorted_wrt_filter)
  have sub: "set rest \<subseteq> set (index_tree ?w1)"
    using Cons.prems(2,3) by auto
  have dis: "distinct rest" using Cons.prems(3) by simp
  have ih: "purge_delete_loop rest ?w1 (d + 1) =
    (?w1\<lparr>index_tree := filter (\<lambda>a. a \<notin> set rest) (index_tree ?w1)\<rparr>, d + 1 + int (length rest))"
    using s1 sub dis by (rule Cons.IH)
  have flt: "filter (\<lambda>a. a \<notin> set rest) (filter (\<lambda>y. y \<noteq> item) (index_tree w))
      = filter (\<lambda>a. a \<notin> set (item # rest)) (index_tree w)"
    by (simp add: conj_commute)
  show ?case
    using del ih flt by simp
qed

lemma candidates_sub:
  shows "set (candidates w now ttl m) \<subseteq> set (index_tree w)"
  by (auto simp add: candidates_def Let_def dest: in_set_takeD)

lemma candidates_distinct:
  assumes "distinct (index_tree w)"
  shows "distinct (candidates w now ttl m)"
  using assms by (simp add: candidates_def Let_def)

lemma PurgeExpiredAt_candidates:
  assumes "index_inv w" and "ttl > 0"
  shows "PurgeExpiredAt now ttl m w =
    Inr (w\<lparr>index_tree := filter (\<lambda>a. a \<notin> set (candidates w now ttl m)) (index_tree w)\<rparr>,
         int (length (candidates w now ttl m)))"
proof (cases "candidates w now ttl m = []")
  case True
  then show ?thesis using assms(2)
    by (simp add: PurgeExpiredAt_def Let_def scan_candidates)
next
  case False
  have srt: "sorted_wrt (\<lambda>a b. key_bytes w a < key_bytes w b) (index_tree w)"
    using assms(1) by (simp add: index_inv_iff)
  have "distinct (index_tree w)" using srt by (rule sorted_keys_inj)
  then have "distinct (candidates w now ttl m)" by (rule candidates_distinct)
  then have "purge_delete_loop (candidates w now ttl m) w 0 =
    (w\<lparr>index_tree := filter (\<lambda>a. a \<notin> set (candidates w now ttl m)) (index_tree w)\<rparr>,
     0 + int (length (candidates w now ttl m)))"
    using srt candidates_sub by (intro purge_delete_loop_eq)
  then show ?thesis using assms(2) False
    by (simp add: PurgeExpiredAt_def Let_def scan_candidates)
qed

lemma index_inv_filter:
  assumes "index_inv w"
  shows "index_inv (w\<lparr>index_tree := filter P (index_tree w)\<rparr>)"
  using assms by (simp add: index_inv_iff sorted_wrt_filter)

lemma filter_not_in_take:
  assumes "distinct xs"
  shows "filter (\<lambda>a. a \<notin> set (take k xs)) xs = drop k xs"
proof -
  have d: "distinct (take k xs @ drop k xs)" using assms by simp
  have "filter (\<lambda>a. a \<notin> set (take k xs)) (take k xs) = []"
    by (simp add: filter_empty_conv)
  moreover have "filter (\<lambda>a. a \<notin> set (take k xs)) (drop k xs) = drop k xs"
  proof (rule filter_True)
    show "\<forall>x\<in>set (drop k xs). x \<notin> set (take k xs)"
      using d unfolding distinct_append by blast
  qed
  ultimately have "filter (\<lambda>a. a \<notin> set (take k xs)) (take k xs @ drop k xs) = drop k xs"
    by (simp only: filter_append append_Nil)
  then show ?thesis by simp
qed

text \<open>
  Claim C6. With \<open>ttl \<le> 0\<close>, for every index state, every \<open>now\<close> and every limit,
  \<open>PurgeExpiredAt\<close> returns 0 and the state it was given, and \<open>ListExpiredAt\<close> returns the
  nil result. \<open>ListExpiredAt\<close> has no state to return: it writes nothing.
\<close>

theorem nonpositive_ttl_is_noop:
  assumes "ttl \<le> 0"
  shows "PurgeExpiredAt now ttl limit w = Inr (w, 0) \<and> ListExpiredAt now ttl limit w = Inr None"
  using assms by (simp add: PurgeExpiredAt_def ListExpiredAt_def)

text \<open>
  Claim C4. With \<open>ttl > 0\<close> and the cutoff \<open>now - ttl\<close> in whole seconds, an indexed record
  whose expiration equals the cutoff is eligible; it is in the result of \<open>ListExpiredAt\<close>
  and is removed by \<open>PurgeExpiredAt\<close> whenever the limit does not cut the list of expired
  records (limit not positive, or at least their number). An indexed record whose
  expiration is the cutoff plus one second is not eligible: for every limit it is not in
  the result of \<open>ListExpiredAt\<close> and stays in the index after \<open>PurgeExpiredAt\<close>.
\<close>

theorem ttl_boundary_inclusive:
  assumes "index_inv w" and "ttl > 0" and "a \<in> set (index_tree w)"
  shows "(GetExpirationTime w a = Unix (time_Add now (- ttl))
            \<and> (limit \<le> 0 \<or> int (length (filter (eligible w now ttl) (index_tree w))) \<le> limit) \<longrightarrow>
          eligible w now ttl a
          \<and> (\<exists>out. ListExpiredAt now ttl limit w = Inr (Some out) \<and> a \<in> set out)
          \<and> (\<exists>w' d. PurgeExpiredAt now ttl limit w = Inr (w', d) \<and> a \<notin> set (index_tree w')))
       \<and> (GetExpirationTime w a = Unix (time_Add now (- ttl)) + 1 \<longrightarrow>
          \<not> eligible w now ttl a
          \<and> (\<exists>out. ListExpiredAt now ttl limit' w = Inr (Some out) \<and> a \<notin> set out)
          \<and> (\<exists>w' d. PurgeExpiredAt now ttl limit' w = Inr (w', d) \<and> a \<in> set (index_tree w')))"
proof (intro conjI impI)
  assume h: "GetExpirationTime w a = Unix (time_Add now (- ttl))
            \<and> (limit \<le> 0 \<or> int (length (filter (eligible w now ttl) (index_tree w))) \<le> limit)"
  show el: "eligible w now ttl a" using h by (simp add: eligible_def)
  have all: "candidates w now ttl limit = filter (eligible w now ttl) (index_tree w)"
    using h by (auto simp add: candidates_def Let_def)
  then have mem: "a \<in> set (candidates w now ttl limit)" using el assms(3) by simp
  show "\<exists>out. ListExpiredAt now ttl limit w = Inr (Some out) \<and> a \<in> set out"
    using ListExpiredAt_candidates [OF assms(2), of now limit w] mem by simp
  show "\<exists>w' d. PurgeExpiredAt now ttl limit w = Inr (w', d) \<and> a \<notin> set (index_tree w')"
    using PurgeExpiredAt_candidates [OF assms(1,2), of now limit] mem by simp
next
  assume h: "GetExpirationTime w a = Unix (time_Add now (- ttl)) + 1"
  show nel: "\<not> eligible w now ttl a" using h by (simp add: eligible_def)
  have "set (candidates w now ttl limit') \<subseteq> set (filter (eligible w now ttl) (index_tree w))"
    by (auto simp add: candidates_def Let_def dest: in_set_takeD)
  then have nmem: "a \<notin> set (candidates w now ttl limit')" using nel by auto
  show "\<exists>out. ListExpiredAt now ttl limit' w = Inr (Some out) \<and> a \<notin> set out"
    using ListExpiredAt_candidates [OF assms(2), of now limit' w] nmem by simp
  show "\<exists>w' d. PurgeExpiredAt now ttl limit' w = Inr (w', d) \<and> a \<in> set (index_tree w')"
    using PurgeExpiredAt_candidates [OF assms(1,2), of now limit'] nmem assms(3) by simp
qed

text \<open>
  Claim C5. When more than \<open>n\<close> records are expired and \<open>n > 0\<close>,
  \<open>PurgeExpiredAt now ttl n\<close> deletes \<open>n\<close> records, the first \<open>n\<close> expired ones in key
  order, so at most \<open>n\<close>; a second call with a limit \<open>m \<le> 0\<close> deletes all the remaining
  expired records: the index is left with the records that are not expired.
\<close>

theorem bounded_purge_then_unbounded:
  assumes "index_inv w" and "ttl > 0" and "n > 0"
    and "int (length (filter (eligible w now ttl) (index_tree w))) > n" and "m \<le> 0"
  shows "\<exists>w1 d1 w2 d2.
           PurgeExpiredAt now ttl n w = Inr (w1, d1) \<and> d1 \<le> n \<and> d1 = n
         \<and> Size w1 = Size w - d1
         \<and> index_tree w1 = filter (\<lambda>a. a \<notin> set (take (nat n) (filter (eligible w now ttl) (index_tree w))))
                              (index_tree w)
         \<and> PurgeExpiredAt now ttl m w1 = Inr (w2, d2)
         \<and> d2 = int (length (filter (eligible w now ttl) (index_tree w))) - n
         \<and> index_tree w2 = filter (\<lambda>a. \<not> eligible w now ttl a) (index_tree w)
         \<and> list_all (\<lambda>a. \<not> eligible w2 now ttl a) (index_tree w2)"
proof -
  let ?E = "filter (eligible w now ttl) (index_tree w)"
  let ?k = "nat n"
  let ?w1 = "w\<lparr>index_tree := filter (\<lambda>a. a \<notin> set (take ?k ?E)) (index_tree w)\<rparr>"
  let ?w2 = "w\<lparr>index_tree := filter (\<lambda>a. \<not> eligible w now ttl a) (index_tree w)\<rparr>"
  have srt: "sorted_wrt (\<lambda>a b. key_bytes w a < key_bytes w b) (index_tree w)"
    using assms(1) by (simp add: index_inv_iff)
  have dist: "distinct (index_tree w)" using srt by (rule sorted_keys_inj)
  have distE: "distinct ?E" using dist by simp
  have c1: "candidates w now ttl n = take ?k ?E"
    using assms(3) by (simp add: candidates_def Let_def)
  have len1: "int (length (take ?k ?E)) = n"
    using assms(3,4) by simp
  have p1: "PurgeExpiredAt now ttl n w = Inr (?w1, n)"
    using PurgeExpiredAt_candidates [OF assms(1,2), of now n] by (simp only: c1 len1)
  have inv1: "index_inv ?w1" using assms(1) by (rule index_inv_filter)
  have comp: "length (filter (\<lambda>a. a \<notin> set (take ?k ?E)) (index_tree w))
      + length (filter (\<lambda>a. \<not> a \<notin> set (take ?k ?E)) (index_tree w)) = length (index_tree w)"
    by (rule sum_length_filter_compl)
  have "filter (\<lambda>a. \<not> a \<notin> set (take ?k ?E)) (index_tree w) = filter (\<lambda>a. a \<in> set (take ?k ?E)) (index_tree w)"
    by simp
  moreover have "length (filter (\<lambda>a. a \<in> set (take ?k ?E)) (index_tree w)) = card (set (take ?k ?E) \<inter> set (index_tree w))"
    using dist by (simp add: distinct_length_filter)
  moreover have "set (take ?k ?E) \<inter> set (index_tree w) = set (take ?k ?E)"
    by (auto dest: in_set_takeD)
  moreover have "card (set (take ?k ?E)) = length (take ?k ?E)"
    using distE by (intro distinct_card) simp
  ultimately have "length (filter (\<lambda>a. \<not> a \<notin> set (take ?k ?E)) (index_tree w)) = length (take ?k ?E)"
    by simp
  then have size1: "Size ?w1 = Size w - n"
    using comp len1 by (simp add: Size_def btree_Len_def)
  have c2: "candidates ?w1 now ttl m = drop ?k ?E"
  proof -
    have "candidates ?w1 now ttl m = filter (eligible w now ttl) (filter (\<lambda>a. a \<notin> set (take ?k ?E)) (index_tree w))"
      using assms(5) by (simp add: candidates_def Let_def)
    also have "\<dots> = filter (\<lambda>a. a \<notin> set (take ?k ?E)) ?E"
      by (simp add: conj_commute)
    also have "\<dots> = drop ?k ?E" using distE by (rule filter_not_in_take)
    finally show ?thesis .
  qed
  have len2: "int (length (drop ?k ?E)) = int (length ?E) - n"
    using assms(3,4) by simp
  have t2: "filter (\<lambda>a. a \<notin> set (drop ?k ?E)) (index_tree ?w1) = filter (\<lambda>a. \<not> eligible w now ttl a) (index_tree w)"
  proof -
    have "filter (\<lambda>a. a \<notin> set (drop ?k ?E)) (index_tree ?w1)
        = filter (\<lambda>a. a \<notin> set (take ?k ?E) \<and> a \<notin> set (drop ?k ?E)) (index_tree w)"
      by simp
    also have "\<dots> = filter (\<lambda>a. a \<notin> set (take ?k ?E @ drop ?k ?E)) (index_tree w)"
      by (simp only: set_append Un_iff de_Morgan_disj)
    also have "\<dots> = filter (\<lambda>a. a \<notin> set ?E) (index_tree w)" by simp
    also have "\<dots> = filter (\<lambda>a. \<not> eligible w now ttl a) (index_tree w)"
      by (rule filter_cong [OF refl]) simp
    finally show ?thesis .
  qed
  have p2: "PurgeExpiredAt now ttl m ?w1 = Inr (?w2, int (length ?E) - n)"
    using PurgeExpiredAt_candidates [OF inv1 assms(2), of now m] by (simp only: c2 len2 t2) simp
  have none: "list_all (\<lambda>a. \<not> eligible ?w2 now ttl a) (index_tree ?w2)"
    by (simp add: list_all_iff)
  show ?thesis
    apply (rule exI [of _ ?w1], rule exI [of _ n], rule exI [of _ ?w2], rule exI [of _ "int (length ?E) - n"])
    apply (intro conjI)
            apply (rule p1)
           apply simp
          apply simp
         apply (rule size1)
        apply simp
       apply (rule p2)
      apply simp
     apply simp
    apply (rule none)
    done
qed

lemma keyBytes_restamp:
  "keyBytes (case n of ValueNodeItem v k t \<Rightarrow> ValueNodeItem v k u | FilterNodeItem k t \<Rightarrow> FilterNodeItem k u)
     = keyBytes n"
  by (cases n) simp_all

lemma key_bytes_SetExpirationTime [simp]: "key_bytes (SetExpirationTime a ts w) = key_bytes w"
  by (intro ext) (simp add: key_bytes_def bytes_of_def Key_def SetExpirationTime_def keyBytes_restamp
      split: option.splits)

lemma Less_SetExpirationTime [simp]: "Less (SetExpirationTime a ts w) = Less w"
  by (simp add: Less_key_bytes)

lemma Key_SetExpirationTime [simp]: "Key (SetExpirationTime a ts w) = Key w"
  by (intro ext) (simp add: Key_def SetExpirationTime_def keyBytes_restamp)

lemma len_SetExpirationTime [simp]: "len (SetExpirationTime a ts w) = len w"
  by (intro ext) (simp add: len_def SetExpirationTime_def split: option.splits)

lemma len_index_tree_update [simp]: "len (w\<lparr>index_tree := t\<rparr>) = len w"
  by (intro ext) (simp add: len_def split: option.splits)

lemma Key_index_tree_update [simp]: "Key (w\<lparr>index_tree := t\<rparr>) = Key w"
  by (intro ext) (simp add: Key_def)

lemma index_tree_SetExpirationTime [simp]: "index_tree (SetExpirationTime a ts w) = index_tree w"
  by (simp add: SetExpirationTime_def)

lemma GetExpirationTime_SetExpirationTime:
  "GetExpirationTime (SetExpirationTime a ts w) b = (if b = a then Unix ts else GetExpirationTime w b)"
  by (cases "objs w a") (simp_all add: GetExpirationTime_def SetExpirationTime_def)

lemma GetExpirationTime_index_tree_update [simp]:
  "GetExpirationTime (w\<lparr>index_tree := t\<rparr>) = GetExpirationTime w"
  by (intro ext) (simp add: GetExpirationTime_def)

lemma UpsertAt_valid:
  assumes "len w (Key w a) \<noteq> 0"
  shows "UpsertAt (Some a) ts w =
    ((SetExpirationTime a ts w)\<lparr>index_tree :=
        fst (btree_ReplaceOrInsert (\<lambda>x y. key_bytes w x < key_bytes w y) a (index_tree w))\<rparr>,
     btree_Get (\<lambda>x y. key_bytes w x < key_bytes w y) (index_tree w) a = None)"
  using assms
  by (simp add: UpsertAt_def Let_def Less_key_bytes split_beta ReplaceOrInsert_prev)

lemma index_inv_UpsertAt:
  assumes "index_inv w"
  shows "index_inv (fst (UpsertAt item ts w))"
proof (cases item)
  case None
  then show ?thesis using assms by (simp add: UpsertAt_def)
next
  case (Some a)
  show ?thesis
  proof (cases "len w (Key w a) = 0")
    case True
    then show ?thesis using assms Some by (simp add: UpsertAt_def)
  next
    case False
    have "sorted_wrt (\<lambda>x y. key_bytes w x < key_bytes w y)
        (fst (btree_ReplaceOrInsert (\<lambda>x y. key_bytes w x < key_bytes w y) a (index_tree w)))"
      using assms by (intro ReplaceOrInsert_sorted) (simp add: index_inv_iff)
    then show ?thesis
      using Some by (simp add: UpsertAt_valid [OF False] index_inv_iff)
  qed
qed

text \<open>
  Claim C3, as amended. \<open>UpsertAt\<close> with a record \<open>a\<close> whose key is not empty stores the
  caller's record object itself: afterwards \<open>GetNodeItem\<close> on that key returns \<open>a\<close>, with
  the expiration just set, whether or not another record object was indexed under the
  key before. The call reports a new key exactly when the key was absent. No other
  record object is written: the fields of the object indexed before are as they were.
\<close>

theorem UpsertAt_stores_callers_record:
  assumes "index_inv w" and "len w (Key w a) \<noteq> 0"
    and "len w (Key w p) \<noteq> 0" and "key_bytes w p = key_bytes w a"
  shows "GetNodeItem (Some p) (fst (UpsertAt (Some a) ts w)) = (Some a, True)
       \<and> GetLastWriteUnix (Some p) (fst (UpsertAt (Some a) ts w)) = (Unix ts, True)
       \<and> snd (UpsertAt (Some a) ts w) = (\<not> Has (Some p) w)
       \<and> (\<forall>b. b \<noteq> a \<longrightarrow> objs (fst (UpsertAt (Some a) ts w)) b = objs w b)
       \<and> arrs (fst (UpsertAt (Some a) ts w)) = arrs w
       \<and> index_inv (fst (UpsertAt (Some a) ts w))"
proof -
  let ?lt = "\<lambda>x y. key_bytes w x < key_bytes w y"
  let ?t = "fst (btree_ReplaceOrInsert ?lt a (index_tree w))"
  let ?w' = "(SetExpirationTime a ts w)\<lparr>index_tree := ?t\<rparr>"
  have srt: "sorted_wrt ?lt (index_tree w)" using assms(1) by (simp add: index_inv_iff)
  have up: "UpsertAt (Some a) ts w = (?w', btree_Get ?lt (index_tree w) a = None)"
    using assms(2) by (rule UpsertAt_valid)
  have get: "btree_Get ?lt ?t p = Some a"
    using srt assms(4) by (simp add: btree_Get_ReplaceOrInsert)
  have lenp: "len ?w' (Key ?w' p) \<noteq> 0"
    using assms(3) by simp
  have ltw: "Less ?w' = ?lt" by (simp add: Less_key_bytes)
  have same: "btree_Get ?lt (index_tree w) p = btree_Get ?lt (index_tree w) a"
  proof (cases "key_bytes w a \<in> key_bytes w ` set (index_tree w)")
    case True
    then obtain x where x: "x \<in> set (index_tree w)" "key_bytes w x = key_bytes w a" by auto
    have "btree_Get ?lt (index_tree w) p = Some x"
      using srt x(1) by (rule btree_Get_complete) (simp add: x(2) assms(4))
    moreover have "btree_Get ?lt (index_tree w) a = Some x"
      using srt x by (rule btree_Get_complete)
    ultimately show ?thesis by simp
  next
    case False
    have "btree_Get ?lt (index_tree w) a = None"
      using srt False by (simp add: btree_Get_None_iff)
    moreover have "btree_Get ?lt (index_tree w) p = None"
      using srt False assms(4) by (simp add: btree_Get_None_iff)
    ultimately show ?thesis by simp
  qed
  have c1: "GetNodeItem (Some p) ?w' = (Some a, True)"
    using lenp get by (simp add: GetNodeItem_def Less_key_bytes)
  have c2: "GetLastWriteUnix (Some p) ?w' = (Unix ts, True)"
    using get by (simp add: GetLastWriteUnix_def Less_key_bytes GetExpirationTime_SetExpirationTime)
  have c3: "(btree_Get ?lt (index_tree w) a = None) = (\<not> Has (Some p) w)"
    using assms(3) same by (simp add: Has_def Less_key_bytes)
  have c4: "\<forall>b. b \<noteq> a \<longrightarrow> objs ?w' b = objs w b"
    by (simp add: SetExpirationTime_def)
  have c5: "arrs ?w' = arrs w" by (simp add: SetExpirationTime_def)
  have c6: "index_inv (fst (UpsertAt (Some a) ts w))"
    using assms(1) by (rule index_inv_UpsertAt)
  show ?thesis
    unfolding up fst_conv snd_conv
    using c1 c2 c3 c4 c5 c6 [unfolded up fst_conv] by (intro conjI)
qed

lemmas ttl_eval =
  UpsertAt_def SetExpirationTime_def Key_def len_def Less_def bytes_of_def Let_def
  time_Unix_def Unix_def time_Add_def GetExpirationTime_def heap0_def

lemma index_inv_heap0: "index_inv heap0"
  by (simp add: index_inv_def heap0_def)

lemma index_inv_boundary_world: "index_inv boundary_world"
  unfolding boundary_world_def by (intro index_inv_UpsertAt index_inv_heap0)

lemma boundary_world_eval:
  "index_tree boundary_world = [1, 2, 3]"
  "GetExpirationTime boundary_world 1 = 19969"
  "GetExpirationTime boundary_world (Suc 0) = 19969"
  "GetExpirationTime boundary_world 2 = 19970"
  "GetExpirationTime boundary_world 3 = 19971"
  by (simp_all add: boundary_world_def ttl_eval)

lemma upsert_once_eval:
  "index_tree upsert_once = [2]"
  "objs upsert_once 2 = FilterNodeItem (Some 2) 100"
  "objs upsert_once 4 = ValueNodeItem (Some 6) (Some 4) 0"
  "objs upsert_once 5 = FilterNodeItem (Some 5) 0"
  "arrs upsert_once = arrs heap0"
  by (simp_all add: upsert_once_def ttl_eval)

text \<open>
  Claim C3, as stated, fails. The record at address 2 (key \<^verbatim>\<open>b\<close>) is upserted at time 100;
  \<open>GetNodeItem\<close> returns it. A second record object, at address 4 with the same key, is
  upserted at time 200. \<open>GetNodeItem\<close> now returns the object at address 4, not the handle
  obtained before, and the object of the handle still has expiration 100.
\<close>

theorem Upsert_replaces_indexed_record:
  "GetNodeItem (Some 5) upsert_once = (Some 2, True)
   \<and> GetNodeItem (Some 5) upsert_twice = (Some 4, True)
   \<and> fst (GetNodeItem (Some 5) upsert_twice) \<noteq> fst (GetNodeItem (Some 5) upsert_once)
   \<and> GetExpirationTime upsert_twice 2 = 100
   \<and> GetLastWriteUnix (Some 5) upsert_twice = (200, True)"
  by (simp add: upsert_twice_def upsert_once_def GetNodeItem_def GetLastWriteUnix_def ttl_eval)

theorem UpsertAt_stores_callers_record_witness:
  "index_inv upsert_once \<and> len upsert_once (Key upsert_once 4) \<noteq> 0
   \<and> len upsert_once (Key upsert_once 5) \<noteq> 0
   \<and> key_bytes upsert_once 5 = key_bytes upsert_once 4
   \<and> Has (Some 5) upsert_once
   \<and> GetNodeItem (Some 5) (fst (UpsertAt (Some 4) (time_Unix 200) upsert_once)) = (Some 4, True)
   \<and> GetLastWriteUnix (Some 5) (fst (UpsertAt (Some 4) (time_Unix 200) upsert_once)) = (200, True)
   \<and> snd (UpsertAt (Some 4) (time_Unix 200) upsert_once) = False
   \<and> objs (fst (UpsertAt (Some 4) (time_Unix 200) upsert_once)) 2 = FilterNodeItem (Some 2) 100"
proof -
  have h1: "index_inv upsert_once"
    unfolding upsert_once_def by (intro index_inv_UpsertAt index_inv_heap0)
  have h2: "len upsert_once (Key upsert_once 4) \<noteq> 0"
    by (simp add: len_def Key_def upsert_once_eval heap0_def)
  have h3: "len upsert_once (Key upsert_once 5) \<noteq> 0"
    by (simp add: len_def Key_def upsert_once_eval heap0_def)
  have h4: "key_bytes upsert_once 5 = key_bytes upsert_once 4"
    by (simp add: key_bytes_def bytes_of_def Key_def upsert_once_eval heap0_def)
  have has: "Has (Some 5) upsert_once"
    by (simp add: Has_def len_def Key_def Less_def bytes_of_def upsert_once_eval heap0_def)
  have u: "Unix (time_Unix 200) = 200" by (simp add: Unix_def time_Unix_def)
  note t = UpsertAt_stores_callers_record [OF h1 h2 h3 h4, of "time_Unix 200"]
  have "GetNodeItem (Some 5) (fst (UpsertAt (Some 4) (time_Unix 200) upsert_once)) = (Some 4, True)"
    using t by blast
  moreover have "GetLastWriteUnix (Some 5) (fst (UpsertAt (Some 4) (time_Unix 200) upsert_once)) = (200, True)"
    using t u by simp
  moreover have "snd (UpsertAt (Some 4) (time_Unix 200) upsert_once) = False"
    using t has by simp
  moreover have "objs (fst (UpsertAt (Some 4) (time_Unix 200) upsert_once)) 2 = FilterNodeItem (Some 2) 100"
    using t by (simp add: upsert_once_eval)
  ultimately show ?thesis using h1 h2 h3 h4 has by blast
qed

theorem nonpositive_ttl_is_noop_witness:
  "(0::int) \<le> 0 \<and> (- 1::int) \<le> 0
   \<and> PurgeExpiredAt (time_Unix 20000) 0 5 boundary_world = Inr (boundary_world, 0)
   \<and> ListExpiredAt (time_Unix 20000) 0 10 boundary_world = Inr None
   \<and> PurgeExpiredAt (time_Unix 20000) (- 1) 0 boundary_world = Inr (boundary_world, 0)
   \<and> ListExpiredAt (time_Unix 20000) (- 1) 0 boundary_world = Inr None"
  using nonpositive_ttl_is_noop [of 0 "time_Unix 20000" 5 boundary_world]
    nonpositive_ttl_is_noop [of 0 "time_Unix 20000" 10 boundary_world]
    nonpositive_ttl_is_noop [of "- 1" "time_Unix 20000" 0 boundary_world]
  by simp

theorem ttl_boundary_inclusive_witness:
  "index_inv boundary_world \<and> (0::int) < 30000000000
   \<and> 2 \<in> set (index_tree boundary_world) \<and> 3 \<in> set (index_tree boundary_world)
   \<and> GetExpirationTime boundary_world 2 = Unix (time_Add (time_Unix 20000) (- 30000000000))
   \<and> GetExpirationTime boundary_world 3 = Unix (time_Add (time_Unix 20000) (- 30000000000)) + 1
   \<and> (\<exists>out. ListExpiredAt (time_Unix 20000) 30000000000 0 boundary_world = Inr (Some out) \<and> 2 \<in> set out)
   \<and> (\<exists>w' d. PurgeExpiredAt (time_Unix 20000) 30000000000 0 boundary_world = Inr (w', d)
               \<and> 2 \<notin> set (index_tree w'))
   \<and> (\<exists>out. ListExpiredAt (time_Unix 20000) 30000000000 0 boundary_world = Inr (Some out) \<and> 3 \<notin> set out)
   \<and> (\<exists>w' d. PurgeExpiredAt (time_Unix 20000) 30000000000 0 boundary_world = Inr (w', d)
               \<and> 3 \<in> set (index_tree w'))"
proof -
  let ?w = boundary_world
  have h1: "index_inv ?w" by (rule index_inv_boundary_world)
  have h2: "(0::int) < 30000000000" by simp
  have m2: "2 \<in> set (index_tree ?w)" and m3: "3 \<in> set (index_tree ?w)"
    by (simp_all add: boundary_world_eval)
  have e2: "GetExpirationTime ?w 2 = Unix (time_Add (time_Unix 20000) (- 30000000000))"
    and e3: "GetExpirationTime ?w 3 = Unix (time_Add (time_Unix 20000) (- 30000000000)) + 1"
    by (simp_all add: boundary_world_eval Unix_def time_Add_def time_Unix_def)
  have l: "(0::int) \<le> 0" by simp
  note t2 = ttl_boundary_inclusive [OF h1 h2 m2, of "time_Unix 20000" 0 0]
  note t3 = ttl_boundary_inclusive [OF h1 h2 m3, of "time_Unix 20000" 0 0]
  have a: "(\<exists>out. ListExpiredAt (time_Unix 20000) 30000000000 0 ?w = Inr (Some out) \<and> 2 \<in> set out)
      \<and> (\<exists>w' d. PurgeExpiredAt (time_Unix 20000) 30000000000 0 ?w = Inr (w', d) \<and> 2 \<notin> set (index_tree w'))"
    using t2 e2 l by blast
  have b: "(\<exists>out. ListExpiredAt (time_Unix 20000) 30000000000 0 ?w = Inr (Some out) \<and> 3 \<notin> set out)
      \<and> (\<exists>w' d. PurgeExpiredAt (time_Unix 20000) 30000000000 0 ?w = Inr (w', d) \<and> 3 \<in> set (index_tree w'))"
    using t3 e3 by blast
  show ?thesis using h1 h2 m2 m3 e2 e3 a b by (intro conjI) blast+
qed

theorem bounded_purge_then_unbounded_witness:
  "index_inv boundary_world \<and> (0::int) < 5000000000 \<and> (0::int) < 2
   \<and> int (length (filter (eligible boundary_world (time_Unix 20000) 5000000000) (index_tree boundary_world))) > 2
   \<and> (0::int) \<le> 0
   \<and> (\<exists>w1 d1 w2 d2.
         PurgeExpiredAt (time_Unix 20000) 5000000000 2 boundary_world = Inr (w1, d1) \<and> d1 = 2
       \<and> Size w1 = 1 \<and> index_tree w1 = [3]
       \<and> PurgeExpiredAt (time_Unix 20000) 5000000000 0 w1 = Inr (w2, d2) \<and> d2 = 1
       \<and> index_tree w2 = [])"
proof -
  let ?w = boundary_world
  have h1: "index_inv ?w" by (rule index_inv_boundary_world)
  have h2: "(0::int) < 5000000000" and h3: "(0::int) < 2" and h5: "(0::int) \<le> 0" by simp_all
  have el: "filter (eligible ?w (time_Unix 20000) 5000000000) (index_tree ?w) = [1, 2, 3]"
    by (simp add: eligible_def boundary_world_eval Unix_def time_Add_def time_Unix_def)
  have nel: "filter (\<lambda>a. \<not> eligible ?w (time_Unix 20000) 5000000000 a) (index_tree ?w) = []"
    by (simp add: eligible_def boundary_world_eval Unix_def time_Add_def time_Unix_def)
  have h4: "int (length (filter (eligible ?w (time_Unix 20000) 5000000000) (index_tree ?w))) > 2"
    unfolding el by simp
  have sz: "Size ?w = 3" by (simp add: Size_def btree_Len_def boundary_world_eval)
  from bounded_purge_then_unbounded [OF h1 h2 h3 h4 h5]
  obtain w1 d1 w2 d2 where
    p1: "PurgeExpiredAt (time_Unix 20000) 5000000000 2 ?w = Inr (w1, d1)" and d1: "d1 = 2"
    and s1: "Size w1 = Size ?w - d1"
    and t1: "index_tree w1 = filter (\<lambda>a. a \<notin> set (take (nat 2)
        (filter (eligible ?w (time_Unix 20000) 5000000000) (index_tree ?w)))) (index_tree ?w)"
    and p2: "PurgeExpiredAt (time_Unix 20000) 5000000000 0 w1 = Inr (w2, d2)"
    and d2: "d2 = int (length (filter (eligible ?w (time_Unix 20000) 5000000000) (index_tree ?w))) - 2"
    and t2: "index_tree w2 = filter (\<lambda>a. \<not> eligible ?w (time_Unix 20000) 5000000000 a) (index_tree ?w)"
    by blast
  have "Size w1 = 1" using s1 d1 sz by simp
  moreover have "index_tree w1 = [3]"
    using t1 unfolding el by (simp add: boundary_world_eval)
  moreover have "d2 = 1" using d2 unfolding el by simp
  moreover have "index_tree w2 = []"
    using t2 unfolding nel by simp
  ultimately show ?thesis using h1 h2 h3 h4 h5 p1 d1 p2 by blast
qed

section \<open>Traversal with a callback, and the batch calls\<close>

lemma same_index_refl: "same_index w w"
  by (simp add: same_index_def)

lemma store_bytes_nil:
  "store_bytes writes None w = (if writes = [] then Inr w else Inl IndexOutOfRange)"
  by (cases writes) auto

lemma store_bytes_ok:
  assumes "list_all (\<lambda>(i, b). i < length (arrs w p)) writes"
  shows "\<exists>w'. store_bytes writes (Some p) w = Inr w' \<and> index_tree w' = index_tree w
    \<and> objs w' = objs w \<and> brk w' = brk w \<and> (\<forall>q. q \<noteq> p \<longrightarrow> arrs w' q = arrs w q)"
  using assms
proof (induction writes arbitrary: w)
  case Nil
  then show ?case by simp
next
  case (Cons wr writes)
  obtain i b where wr: "wr = (i, b)" by (cases wr)
  let ?w1 = "w\<lparr>arrs := (arrs w)(p := (arrs w p)[i := b])\<rparr>"
  have i: "i < length (arrs w p)" using Cons.prems wr by simp
  have "list_all (\<lambda>(i, b). i < length (arrs ?w1 p)) writes"
    using Cons.prems by simp
  from Cons.IH [OF this] obtain w' where
    w': "store_bytes writes (Some p) ?w1 = Inr w'" "index_tree w' = index_tree ?w1"
      "objs w' = objs ?w1" "brk w' = brk ?w1" "\<forall>q. q \<noteq> p \<longrightarrow> arrs w' q = arrs ?w1 q"
    by blast
  have "store_bytes (wr # writes) (Some p) w = Inr w'"
    using wr i w'(1) by simp
  moreover have "\<forall>q. q \<noteq> p \<longrightarrow> arrs w' q = arrs w q" using w'(5) by simp
  ultimately show ?case using w'(2,3,4) by simp
qed

lemma store_bytes_bad:
  assumes "\<not> list_all (\<lambda>(i, b). i < length (arrs w p)) writes"
  shows "store_bytes writes (Some p) w = Inl IndexOutOfRange"
  using assms
proof (induction writes arbitrary: w)
  case Nil
  then show ?case by simp
next
  case (Cons wr writes)
  obtain i b where wr: "wr = (i, b)" by (cases wr)
  show ?case
  proof (cases "i < length (arrs w p)")
    case False
    then show ?thesis using wr by simp
  next
    case True
    let ?w1 = "w\<lparr>arrs := (arrs w)(p := (arrs w p)[i := b])\<rparr>"
    have "\<not> list_all (\<lambda>(i, b). i < length (arrs ?w1 p)) writes"
      using Cons.prems wr True by simp
    from Cons.IH [OF this] show ?thesis using wr True by simp
  qed
qed

lemma key_bytes_same_index:
  assumes "same_index wo w" and "allocated wo x"
  shows "key_bytes w x = key_bytes wo x" and "Key w x = Key wo x"
    and "GetExpirationTime w x = GetExpirationTime wo x"
    and "len w (Key w x) = length (key_bytes wo x)"
proof -
  have o: "objs w = objs wo" using assms(1) by (simp add: same_index_def)
  show k: "Key w x = Key wo x" by (simp add: Key_def o)
  show kb: "key_bytes w x = key_bytes wo x"
  proof (cases "Key wo x")
    case None
    then show ?thesis using k by (simp add: key_bytes_def bytes_of_def)
  next
    case (Some p)
    then have "p < brk wo" using assms(2) by (simp add: allocated_def)
    then have "arrs w p = arrs wo p" using assms(1) by (simp add: same_index_def)
    then show ?thesis using k Some by (simp add: key_bytes_def bytes_of_def)
  qed
  show "GetExpirationTime w x = GetExpirationTime wo x" by (simp add: GetExpirationTime_def o)
  have "len w (Key w x) = length (key_bytes w x)"
    by (simp add: len_def key_bytes_def bytes_of_def split: option.splits)
  then show "len w (Key w x) = length (key_bytes wo x)" by (simp add: kb)
qed

lemma foreach_visit_step:
  assumes si: "same_index wo w" and al: "allocated wo x"
    and cb: "cb c (key_bytes wo x) (GetExpirationTime wo x) = (c', writes, keepGoing)"
  shows "(list_all (\<lambda>(i, b). i < length (key_bytes wo x)) writes \<longrightarrow>
            (\<exists>w2. foreach_visit cb x (w, c) = Inr ((w2, c'), keepGoing) \<and> same_index wo w2))
       \<and> (\<not> list_all (\<lambda>(i, b). i < length (key_bytes wo x)) writes \<longrightarrow>
            foreach_visit cb x (w, c) = Inl IndexOutOfRange)"
proof (cases "len w (Key w x) = 0")
  case True
  have k0: "key_bytes wo x = []"
    using True key_bytes_same_index(4) [OF si al] by simp
  have cl: "cloneBytes (Key w x) w = (None, w)" using True by (simp add: cloneBytes_def)
  have ts: "GetExpirationTime w x = GetExpirationTime wo x"
    using si al by (rule key_bytes_same_index)
  have call: "cb c (bytes_of w None) (GetExpirationTime w x) = (c', writes, keepGoing)"
    using cb by (simp add: bytes_of_def k0 ts)
  have v: "foreach_visit cb x (w, c) =
      (if writes = [] then Inr ((w, c'), keepGoing) else Inl IndexOutOfRange)"
    by (simp add: foreach_visit_def cl call store_bytes_nil)
  have "list_all (\<lambda>(i, b). i < length (key_bytes wo x)) writes \<longleftrightarrow> writes = []"
    by (cases writes) (auto simp add: k0)
  then show ?thesis using v si by auto
next
  case False
  let ?k = "key_bytes wo x"
  let ?w1 = "w\<lparr>arrs := (arrs w)(brk w := bytes_of w (Key w x)), brk := Suc (brk w)\<rparr>"
  have kb: "bytes_of w (Key w x) = ?k"
    using key_bytes_same_index(1) [OF si al] by (simp add: key_bytes_def)
  have cl: "cloneBytes (Key w x) w = (Some (brk w), ?w1)"
    using False by (simp add: cloneBytes_def Let_def)
  have ts: "GetExpirationTime ?w1 x = GetExpirationTime wo x"
    using key_bytes_same_index(3) [OF si al] by (simp add: GetExpirationTime_def)
  have arr1: "arrs ?w1 (brk w) = ?k" by (simp add: kb)
  have call: "cb c (bytes_of ?w1 (Some (brk w))) (GetExpirationTime ?w1 x) = (c', writes, keepGoing)"
  proof -
    have "bytes_of ?w1 (Some (brk w)) = arrs ?w1 (brk w)" by (simp add: bytes_of_def)
    then have "bytes_of ?w1 (Some (brk w)) = ?k" by (simp only: arr1)
    then show ?thesis using cb by (simp only: ts)
  qed
  have v: "foreach_visit cb x (w, c) =
      (case store_bytes writes (Some (brk w)) ?w1 of
         Inl p \<Rightarrow> Inl p | Inr w2 \<Rightarrow> Inr ((w2, c'), keepGoing))"
    by (simp only: foreach_visit_def prod.case cl call)
  show ?thesis
  proof (intro conjI impI)
    assume ok: "list_all (\<lambda>(i, b). i < length ?k) writes"
    then have "list_all (\<lambda>(i, b). i < length (arrs ?w1 (brk w))) writes"
      unfolding arr1 .
    from store_bytes_ok [OF this] obtain w2 where
      w2: "store_bytes writes (Some (brk w)) ?w1 = Inr w2" "index_tree w2 = index_tree ?w1"
        "objs w2 = objs ?w1" "brk w2 = brk ?w1" "\<forall>q. q \<noteq> brk w \<longrightarrow> arrs w2 q = arrs ?w1 q"
      by blast
    have "same_index wo w2"
      unfolding same_index_def
    proof (intro conjI allI impI)
      show "index_tree w2 = index_tree wo" using w2(2) si by (simp add: same_index_def)
      show "objs w2 = objs wo" using w2(3) si by (simp add: same_index_def)
      show "brk wo \<le> brk w2" using w2(4) si by (simp add: same_index_def)
      fix q assume q: "q < brk wo"
      then have "q \<noteq> brk w" using si by (auto simp add: same_index_def)
      then have "arrs w2 q = arrs w q" using w2(5) by simp
      then show "arrs w2 q = arrs wo q" using si q by (simp add: same_index_def)
    qed
    then show "\<exists>w2. foreach_visit cb x (w, c) = Inr ((w2, c'), keepGoing) \<and> same_index wo w2"
      using v w2(1) by simp
  next
    assume bad: "\<not> list_all (\<lambda>(i, b). i < length ?k) writes"
    then have "\<not> list_all (\<lambda>(i, b). i < length (arrs ?w1 (brk w))) writes"
      unfolding arr1 .
    from store_bytes_bad [OF this] show "foreach_visit cb x (w, c) = Inl IndexOutOfRange"
      using v by simp
  qed
qed

lemma foreach_loop:
  assumes "same_index wo w" and "list_all (allocated wo) xs"
  shows "(case btree_Ascend xs (foreach_visit cb) (w, c) of
            Inl p \<Rightarrow> feed cb (map (\<lambda>a. (key_bytes wo a, GetExpirationTime wo a)) xs) c = Inl p
          | Inr (w', c') \<Rightarrow>
              feed cb (map (\<lambda>a. (key_bytes wo a, GetExpirationTime wo a)) xs) c = Inr c'
              \<and> same_index wo w')"
  using assms
proof (induction xs arbitrary: w c)
  case Nil
  then show ?case by simp
next
  case (Cons x xs)
  obtain c' writes keepGoing where
    cb: "cb c (key_bytes wo x) (GetExpirationTime wo x) = (c', writes, keepGoing)"
    by (cases "cb c (key_bytes wo x) (GetExpirationTime wo x)")
  have al: "allocated wo x" and rest: "list_all (allocated wo) xs"
    using Cons.prems(2) by simp_all
  note step = foreach_visit_step [where cb = cb and c = c, OF Cons.prems(1) al cb]
  show ?case
  proof (cases "list_all (\<lambda>(i, b). i < length (key_bytes wo x)) writes")
    case False
    then have "foreach_visit cb x (w, c) = Inl IndexOutOfRange" using step by blast
    then show ?thesis using False cb by simp
  next
    case True
    then obtain w2 where w2: "foreach_visit cb x (w, c) = Inr ((w2, c'), keepGoing)"
      and si2: "same_index wo w2" using step by blast
    show ?thesis
    proof (cases keepGoing)
      case False
      then show ?thesis using True cb w2 si2 by simp
    next
      case go: True
      have "btree_Ascend (x # xs) (foreach_visit cb) (w, c) = btree_Ascend xs (foreach_visit cb) (w2, c')"
        using w2 go by simp
      moreover have "feed cb (map (\<lambda>a. (key_bytes wo a, GetExpirationTime wo a)) (x # xs)) c
          = feed cb (map (\<lambda>a. (key_bytes wo a, GetExpirationTime wo a)) xs) c'"
        using True cb go by simp
      ultimately show ?thesis
        using Cons.IH [OF si2 rest, of c'] by (simp only:)
    qed
  qed
qed

lemma ForEach_feed:
  assumes "list_all (allocated w) (index_tree w)"
  shows "(case ForEach (Some cb) c w of
            Inl p \<Rightarrow> feed cb (visited w) c = Inl p
          | Inr ((w', c'), err) \<Rightarrow>
              feed cb (visited w) c = Inr c' \<and> err = None \<and> same_index w w')"
  using foreach_loop [OF same_index_refl assms, of cb c]
  by (simp add: ForEach_def visited_def split: sum.splits prod.splits)

lemma feed_without_stores:
  assumes "feed cb kts c = Inr c'"
  shows "feed (without_stores cb) kts c = Inr c'"
  using assms
proof (induction kts arbitrary: c)
  case Nil
  then show ?case by simp
next
  case (Cons kt kts)
  obtain k ts where kt: "kt = (k, ts)" by (cases kt)
  obtain c1 writes keepGoing where cb: "cb c k ts = (c1, writes, keepGoing)"
    by (cases "cb c k ts")
  have ws: "without_stores cb c k ts = (c1, [], keepGoing)"
    by (simp add: without_stores_def cb)
  show ?case
  proof (cases "list_all (\<lambda>(i, b). i < length k) writes")
    case False
    then show ?thesis using Cons.prems kt cb by simp
  next
    case True
    show ?thesis
    proof (cases keepGoing)
      case False
      then show ?thesis using Cons.prems kt cb ws True by simp
    next
      case go: True
      then have "feed cb kts c1 = Inr c'" using Cons.prems kt cb True by simp
      then have "feed (without_stores cb) kts c1 = Inr c'" by (rule Cons.IH)
      then show ?thesis using kt ws go by simp
    qed
  qed
qed

lemma btree_Get_cong:
  assumes "\<forall>x\<in>set xs. lt x p = lt' x p \<and> lt p x = lt' p x"
  shows "btree_Get lt xs p = btree_Get lt' xs p"
  using assms by (induction xs) simp_all

lemma ForEach_result:
  assumes "list_all (allocated w) (index_tree w)"
  shows "map_sum id (\<lambda>r. (snd (fst r), snd r)) (ForEach (Some cb) c w)
       = map_sum id (\<lambda>c'. (c', None)) (feed cb (visited w) c)"
  using ForEach_feed [OF assms, of cb c]
  by (cases "ForEach (Some cb) c w") auto

lemma lookups_same_index:
  assumes si: "same_index w w'" and tr: "list_all (allocated w) (index_tree w)"
  shows "visited w' = visited w"
    and "list_all (allocated w') (index_tree w')"
    and "allocated w a \<Longrightarrow> Has (Some a) w' = Has (Some a) w"
    and "allocated w a \<Longrightarrow> GetNodeItem (Some a) w' = GetNodeItem (Some a) w"
    and "allocated w a \<Longrightarrow> GetLastWriteUnix (Some a) w' = GetLastWriteUnix (Some a) w"
proof -
  have t: "index_tree w' = index_tree w" and o: "objs w' = objs w" and b: "brk w \<le> brk w'"
    using si by (simp_all add: same_index_def)
  have al: "\<And>x. x \<in> set (index_tree w) \<Longrightarrow> allocated w x"
    using tr by (simp add: list_all_iff)
  have kb: "\<And>x. allocated w x \<Longrightarrow> key_bytes w' x = key_bytes w x"
    using si by (rule key_bytes_same_index)
  have ge: "GetExpirationTime w' = GetExpirationTime w"
    by (intro ext) (simp add: GetExpirationTime_def o)
  show "visited w' = visited w"
    unfolding visited_def t ge by (rule map_cong [OF refl]) (simp add: kb al)
  have mono: "\<And>x. allocated w x \<Longrightarrow> allocated w' x"
    using b by (auto simp add: allocated_def Key_def o split: option.splits)
  show "list_all (allocated w') (index_tree w')"
    unfolding t list_all_iff using al mono by blast
  {
    assume a: "allocated w a"
    have len: "len w' (Key w' a) = len w (Key w a)"
      using key_bytes_same_index(4) [OF si a] key_bytes_same_index(4) [OF same_index_refl a]
      by simp
    have "\<forall>x\<in>set (index_tree w). Less w' x a = Less w x a \<and> Less w' a x = Less w a x"
      using kb a al by (simp add: Less_key_bytes)
    then have get: "btree_Get (Less w') (index_tree w') a = btree_Get (Less w) (index_tree w) a"
      unfolding t by (rule btree_Get_cong)
    show "Has (Some a) w' = Has (Some a) w"
      by (simp add: Has_def len get)
    show "GetNodeItem (Some a) w' = GetNodeItem (Some a) w"
      by (simp add: GetNodeItem_def len get)
    show "GetLastWriteUnix (Some a) w' = GetLastWriteUnix (Some a) w"
      by (simp add: GetLastWriteUnix_def get ge cong: option.case_cong)
  }
qed

text \<open>
  Claim C8. Whatever stores the callback performs on the key slices it receives, a
  \<open>ForEach\<close> that returns leaves the index as it was: the same tree, the same record
  objects, the same bytes in every array allocated before the call; the keys and
  timestamps in traversal order, and \<open>Has\<close>, \<open>GetNodeItem\<close> and \<open>GetLastWriteUnix\<close> on
  every allocated probe, are unchanged. The run whose callback answers the same but
  stores nothing returns too, with the same closure state, and its final state agrees
  with the mutating run's on all of these and on every later traversal.
\<close>

theorem ForEach_hands_out_copies:
  assumes "list_all (allocated w) (index_tree w)"
    and "ForEach (Some cb) c w = Inr ((w', c'), err)"
  shows "index_tree w' = index_tree w \<and> objs w' = objs w \<and> (\<forall>p<brk w. arrs w' p = arrs w p)
       \<and> visited w' = visited w
       \<and> (\<forall>a. allocated w a \<longrightarrow>
             Has (Some a) w' = Has (Some a) w
             \<and> GetNodeItem (Some a) w' = GetNodeItem (Some a) w
             \<and> GetLastWriteUnix (Some a) w' = GetLastWriteUnix (Some a) w)
       \<and> (\<exists>w0. ForEach (Some (without_stores cb)) c w = Inr ((w0, c'), err)
             \<and> index_tree w0 = index_tree w' \<and> objs w0 = objs w'
             \<and> (\<forall>p<brk w. arrs w0 p = arrs w' p)
             \<and> visited w0 = visited w'
             \<and> (\<forall>a. allocated w a \<longrightarrow>
                   Has (Some a) w0 = Has (Some a) w'
                   \<and> GetNodeItem (Some a) w0 = GetNodeItem (Some a) w'
                   \<and> GetLastWriteUnix (Some a) w0 = GetLastWriteUnix (Some a) w')
             \<and> (\<forall>cb2 c2. map_sum id (\<lambda>r. (snd (fst r), snd r)) (ForEach (Some cb2) c2 w')
                        = map_sum id (\<lambda>r. (snd (fst r), snd r)) (ForEach (Some cb2) c2 w0)))"
proof -
  have run: "feed cb (visited w) c = Inr c' \<and> err = None \<and> same_index w w'"
    using ForEach_feed [OF assms(1), of cb c] assms(2) by simp
  then have si: "same_index w w'" and fd: "feed cb (visited w) c = Inr c'" and er: "err = None"
    by simp_all
  have fd0: "feed (without_stores cb) (visited w) c = Inr c'"
    using fd by (rule feed_without_stores)
  obtain w0 where r0: "ForEach (Some (without_stores cb)) c w = Inr ((w0, c'), err)"
    and si0: "same_index w w0"
  proof (cases "ForEach (Some (without_stores cb)) c w")
    case (Inl p)
    then have "feed (without_stores cb) (visited w) c = Inl p"
      using ForEach_feed [OF assms(1), of "without_stores cb" c] by simp
    then show ?thesis using fd0 by simp
  next
    case (Inr r)
    obtain w0 c0 e0 where r: "r = ((w0, c0), e0)" by (cases r) auto
    have "feed (without_stores cb) (visited w) c = Inr c0 \<and> e0 = None \<and> same_index w w0"
      using ForEach_feed [OF assms(1), of "without_stores cb" c] Inr r by simp
    then have "ForEach (Some (without_stores cb)) c w = Inr ((w0, c'), err)" "same_index w w0"
      using fd0 er Inr r by simp_all
    then show ?thesis by (rule that)
  qed
  note l = lookups_same_index [OF si assms(1)]
  note l0 = lookups_same_index [OF si0 assms(1)]
  have frame: "index_tree w' = index_tree w \<and> objs w' = objs w \<and> (\<forall>p<brk w. arrs w' p = arrs w p)"
    using si by (simp add: same_index_def)
  have frame0: "index_tree w0 = index_tree w' \<and> objs w0 = objs w' \<and> (\<forall>p<brk w. arrs w0 p = arrs w' p)"
    using si si0 by (simp add: same_index_def)
  have looks: "\<forall>a. allocated w a \<longrightarrow>
             Has (Some a) w' = Has (Some a) w
             \<and> GetNodeItem (Some a) w' = GetNodeItem (Some a) w
             \<and> GetLastWriteUnix (Some a) w' = GetLastWriteUnix (Some a) w"
    using l(3,4,5) by blast
  have looks0: "\<forall>a. allocated w a \<longrightarrow>
                   Has (Some a) w0 = Has (Some a) w'
                   \<and> GetNodeItem (Some a) w0 = GetNodeItem (Some a) w'
                   \<and> GetLastWriteUnix (Some a) w0 = GetLastWriteUnix (Some a) w'"
    using l(3,4,5) l0(3,4,5) by simp
  have later: "\<forall>cb2 c2. map_sum id (\<lambda>r. (snd (fst r), snd r)) (ForEach (Some cb2) c2 w')
                        = map_sum id (\<lambda>r. (snd (fst r), snd r)) (ForEach (Some cb2) c2 w0)"
    by (simp add: ForEach_result [OF l(2)] ForEach_result [OF l0(2)] l(1) l0(1))
  have v0: "visited w0 = visited w'" by (simp add: l(1) l0(1))
  show ?thesis
    apply (intro conjI)
         apply (rule conjunct1 [OF frame])
        apply (rule conjunct1 [OF conjunct2 [OF frame]])
       apply (rule conjunct2 [OF conjunct2 [OF frame]])
      apply (rule l(1))
     apply (rule looks)
    apply (rule exI [of _ w0])
    apply (intro conjI)
          apply (rule r0)
         apply (rule conjunct1 [OF frame0])
        apply (rule conjunct1 [OF conjunct2 [OF frame0]])
       apply (rule conjunct2 [OF conjunct2 [OF frame0]])
      apply (rule v0)
     apply (rule looks0)
    apply (rule later)
    done
qed

lemma boundary_world_heap:
  "objs boundary_world 0 = FilterNodeItem None 0"
  "objs boundary_world 1 = FilterNodeItem (Some 1) 19969"
  "objs boundary_world (Suc 0) = FilterNodeItem (Some 1) 19969"
  "objs boundary_world 2 = FilterNodeItem (Some 2) 19970"
  "objs boundary_world 3 = FilterNodeItem (Some 3) 19971"
  "objs boundary_world 5 = FilterNodeItem (Some 5) 0"
  "arrs boundary_world = arrs heap0"
  "brk boundary_world = 7"
  by (simp_all add: boundary_world_def ttl_eval)

theorem ForEach_hands_out_copies_witness:
  "list_all (allocated boundary_world) (index_tree boundary_world)
   \<and> allocated boundary_world 5
   \<and> Has (Some 5) boundary_world
   \<and> (\<exists>w'. ForEach (Some scribble) [] boundary_world = Inr ((w', [[0x61], [0x62], [0x63]]), None)
         \<and> arrs w' 7 = [0x7A] \<and> arrs w' 8 = [0x7A] \<and> arrs w' 9 = [0x7A]
         \<and> index_tree w' = [1, 2, 3]
         \<and> visited w' = [([0x61], 19969), ([0x62], 19970), ([0x63], 19971)]
         \<and> Has (Some 5) w'
         \<and> GetNodeItem (Some 5) w' = (Some 2, True)
         \<and> GetLastWriteUnix (Some 5) w' = (19970, True))"
proof -
  let ?w = boundary_world
  have h1: "list_all (allocated ?w) (index_tree ?w)"
    by (simp add: boundary_world_eval allocated_def Key_def boundary_world_heap)
  have a5: "allocated ?w 5"
    by (simp add: allocated_def Key_def boundary_world_heap)
  have vis: "visited ?w = [([0x61], 19969), ([0x62], 19970), ([0x63], 19971)]"
    by (simp add: visited_def boundary_world_eval key_bytes_def bytes_of_def Key_def
        boundary_world_heap heap0_def)
  have has: "Has (Some 5) ?w"
    by (simp add: Has_def len_def Key_def Less_def bytes_of_def boundary_world_eval
        boundary_world_heap heap0_def)
  have get: "GetNodeItem (Some 5) ?w = (Some 2, True)"
    by (simp add: GetNodeItem_def len_def Key_def Less_def bytes_of_def boundary_world_eval
        boundary_world_heap heap0_def)
  have last: "GetLastWriteUnix (Some 5) ?w = (19970, True)"
    by (simp add: GetLastWriteUnix_def Key_def Less_def bytes_of_def boundary_world_eval
        boundary_world_heap heap0_def)
  have "\<exists>w'. ForEach (Some scribble) [] ?w = Inr ((w', [[0x61], [0x62], [0x63]]), None)
      \<and> arrs w' 7 = [0x7A] \<and> arrs w' 8 = [0x7A] \<and> arrs w' 9 = [0x7A]"
    by (simp add: ForEach_def foreach_visit_def cloneBytes_def scribble_def len_def Key_def
        bytes_of_def GetExpirationTime_def Let_def boundary_world_eval boundary_world_heap heap0_def)
  then obtain w' where fe: "ForEach (Some scribble) [] ?w = Inr ((w', [[0x61], [0x62], [0x63]]), None)"
    and cp: "arrs w' 7 = [0x7A]" "arrs w' 8 = [0x7A]" "arrs w' 9 = [0x7A]"
    by blast
  note t = ForEach_hands_out_copies [OF h1 fe]
  have t1: "index_tree w' = index_tree ?w" using t by (rule conjunct1)
  have t4: "visited w' = visited ?w" using t by blast
  have t5: "Has (Some 5) w' = Has (Some 5) ?w \<and> GetNodeItem (Some 5) w' = GetNodeItem (Some 5) ?w
      \<and> GetLastWriteUnix (Some 5) w' = GetLastWriteUnix (Some 5) ?w"
    using t a5 by blast
  have "index_tree w' = [1, 2, 3]" using t1 by (simp add: boundary_world_eval)
  moreover have "visited w' = [([0x61], 19969), ([0x62], 19970), ([0x63], 19971)]"
    using t4 vis by simp
  moreover have "Has (Some 5) w'" using t5 has by simp
  moreover have "GetNodeItem (Some 5) w' = (Some 2, True)" using t5 get by simp
  moreover have "GetLastWriteUnix (Some 5) w' = (19970, True)" using t5 last by simp
  ultimately show ?thesis using h1 a5 has fe cp by blast
qed

text \<open>
  Claim C9. \<open>UpsertManyAt\<close> and \<open>DeleteMany\<close> panic on a list that starts with a nil
  record, where \<open>UpsertAt\<close> and \<open>Delete\<close> return false on a nil record. A record with an
  empty key in the same place is skipped and the next record is processed.
\<close>

theorem batch_calls_panic_on_nil_record:
  "UpsertManyAt (None # rest) at_time w = Inl NilPointerDereference
   \<and> DeleteMany (None # rest') w = Inl NilPointerDereference
   \<and> UpsertAt None at_time w = (w, False)
   \<and> ttl_Delete None w = (w, False)
   \<and> map_sum id snd (UpsertManyAt [None, Some 1] (time_Unix 1) heap0) = Inl NilPointerDereference
   \<and> map_sum id snd (UpsertManyAt [Some 0, Some 1] (time_Unix 1) heap0) = Inr 1
   \<and> map_sum id snd (DeleteMany [None, Some 1] boundary_world) = Inl NilPointerDereference
   \<and> map_sum id snd (DeleteMany [Some 0, Some 1] boundary_world) = Inr 1"
proof -
  have "map_sum id snd (UpsertManyAt [Some 0, Some 1] (time_Unix 1) heap0) = Inr 1"
    by (simp add: UpsertManyAt_def ttl_eval)
  moreover have "map_sum id snd (DeleteMany [Some 0, Some 1] boundary_world) = Inr 1"
    by (simp add: DeleteMany_def len_def Key_def Less_def bytes_of_def boundary_world_eval
        boundary_world_heap heap0_def)
  ultimately show ?thesis
    by (simp add: UpsertManyAt_def DeleteMany_def UpsertAt_def ttl_Delete_def)
qed

end
